theory Spec2Isabelle
  imports Complex_Main "HOL-Library.Word"
begin

unbundle bit_operations_syntax

section \<open>Machine types\<close>

type_synonym uint64 = "64 word"
type_synonym uint32 = "32 word"
type_synonym uint8 = "8 word"
type_synonym int32 = "32 word"

subsection \<open>IEEE 754 binary64 values\<close>

text \<open>
  A C++ \<^verbatim>\<open>double\<close>. \<open>Finite m e\<close> stands for the number \<open>m * 2 ^ e\<close>; the
  values a binary64 holds are those with \<open>\<bar>m\<bar> < 2 ^ 53\<close> and \<open>- 1074 \<le> e \<le> 971\<close>
  (up to the choice of \<open>m\<close> and \<open>e\<close>). The sign of zero is not kept: no comparison,
  \<^verbatim>\<open>fabs\<close>, sum or conversion to an integer used below tells \<^verbatim>\<open>-0.0\<close> from
  \<^verbatim>\<open>0.0\<close>. Every operation rounds its exact result once to binary64, as the
  compilers for x86-64 and AArch64 make it. All arithmetic is on integers, so every
  operation evaluates.
\<close>

datatype double = Finite int int | PlusInf | MinusInf | NaN

text \<open>The number of binary digits of a positive integer (0 for the others).\<close>

function nbits :: "int \<Rightarrow> int" where
  "nbits n = (if n \<le> 0 then 0 else 1 + nbits (n div 2))"
  by pat_completeness auto
termination
  by (relation "measure nat") auto

declare nbits.simps [simp del]

text \<open>\<open>m / 2 ^ k\<close> rounded to the nearest integer, ties to the even one.\<close>

definition rne_shift :: "int \<Rightarrow> nat \<Rightarrow> int" where
  "rne_shift m k =
     (if k = 0 then m
      else let q = m div 2 ^ k; r = m mod 2 ^ k; h = 2 ^ (k - 1)
           in if h < r \<or> (r = h \<and> odd q) then q + 1 else q)"

text \<open>
  The binary64 nearest to \<open>m * 2 ^ e\<close> (round to nearest, ties to even, the
  default rounding mode): 53 significant bits, no bit below \<open>2 ^ - 1074\<close>, and
  an infinity once the rounded magnitude reaches \<open>2 ^ 1024\<close>.
\<close>

definition round_double :: "int \<Rightarrow> int \<Rightarrow> double" where
  "round_double m e =
     (let k = nat (max (nbits \<bar>m\<bar> - 53) (- 1074 - e));
          m' = rne_shift m k;
          e' = e + int k
      in if 1024 < nbits \<bar>m'\<bar> + e'
         then (if 0 < m' then PlusInf else MinusInf)
         else Finite m' e')"

text \<open>The comparison \<^verbatim>\<open>a < b\<close>; false whenever an operand is a NaN.\<close>

fun d_less :: "double \<Rightarrow> double \<Rightarrow> bool" where
  "d_less NaN b = False"
| "d_less a NaN = False"
| "d_less PlusInf b = False"
| "d_less a MinusInf = False"
| "d_less MinusInf b = True"
| "d_less a PlusInf = True"
| "d_less (Finite m1 e1) (Finite m2 e2) =
     (let e = min e1 e2 in m1 * 2 ^ nat (e1 - e) < m2 * 2 ^ nat (e2 - e))"

text \<open>The comparison \<^verbatim>\<open>a > b\<close>.\<close>

definition d_greater :: "double \<Rightarrow> double \<Rightarrow> bool" where
  "d_greater a b = d_less b a"

fun d_neg :: "double \<Rightarrow> double" where
  "d_neg (Finite m e) = Finite (- m) e"
| "d_neg PlusInf = MinusInf"
| "d_neg MinusInf = PlusInf"
| "d_neg NaN = NaN"

text \<open>\<^verbatim>\<open>fabs\<close> of \<^verbatim>\<open><cmath>\<close>.\<close>

fun d_fabs :: "double \<Rightarrow> double" where
  "d_fabs (Finite m e) = Finite \<bar>m\<bar> e"
| "d_fabs PlusInf = PlusInf"
| "d_fabs MinusInf = PlusInf"
| "d_fabs NaN = NaN"

text \<open>The sum \<^verbatim>\<open>a + b\<close>: the exact sum, rounded once.\<close>

fun d_add :: "double \<Rightarrow> double \<Rightarrow> double" where
  "d_add NaN b = NaN"
| "d_add a NaN = NaN"
| "d_add PlusInf MinusInf = NaN"
| "d_add MinusInf PlusInf = NaN"
| "d_add PlusInf b = PlusInf"
| "d_add MinusInf b = MinusInf"
| "d_add a PlusInf = PlusInf"
| "d_add a MinusInf = MinusInf"
| "d_add (Finite m1 e1) (Finite m2 e2) =
     (let e = min e1 e2
      in round_double (m1 * 2 ^ nat (e1 - e) + m2 * 2 ^ nat (e2 - e)) e)"

text \<open>The difference \<^verbatim>\<open>a - b\<close>.\<close>

definition d_sub :: "double \<Rightarrow> double \<Rightarrow> double" where
  "d_sub a b = d_add a (d_neg b)"

text \<open>
  The implicit conversion of an unsigned integer to \<^verbatim>\<open>double\<close>: exact below
  \<open>2 ^ 53\<close>, rounded to the nearest binary64 above.
\<close>

definition d_of_word :: "'a::len word \<Rightarrow> double" where
  "d_of_word w = round_double (uint w) 0"

text \<open>The literal \<^verbatim>\<open>0\<close> as a \<^verbatim>\<open>double\<close>.\<close>

definition d_zero :: double where
  "d_zero = Finite 0 0"

text \<open>
  The conversion of a \<^verbatim>\<open>double\<close> to the unsigned type of \<open>LENGTH('a)\<close> bits
  drops the fraction; the behaviour is undefined (\<open>None\<close>) when the value without its
  fraction is not a value of the type, and for an infinity or a NaN.
\<close>

definition d_truncate :: "int \<Rightarrow> int \<Rightarrow> int" where
  "d_truncate m e =
     (if 0 \<le> e then m * 2 ^ nat e
      else if 0 \<le> m then m div 2 ^ nat (- e)
      else - ((- m) div 2 ^ nat (- e)))"

fun d_to_word :: "double \<Rightarrow> 'a::len word option" where
  "d_to_word (Finite m e) =
     (let t = d_truncate m e
      in if 0 \<le> t \<and> t < 2 ^ LENGTH('a) then Some (word_of_int t) else None)"
| "d_to_word PlusInf = None"
| "d_to_word MinusInf = None"
| "d_to_word NaN = None"

text \<open>
  A C++ \<^verbatim>\<open>float\<close> (binary32) holds a subset of the binary64 values; the header
  declares two fields of the type and computes nothing with them.
\<close>

type_synonym cfloat = double

section \<open>HeapWindow\<close>

record HeapWindow =
  minimum_address :: uint64
  maximum_address :: uint64
  minimum_tick :: uint32
  maximum_tick :: uint32

text \<open>\<^verbatim>\<open>uint64_t height() { return maximum_address_ - minimum_address_; }\<close>\<close>

definition height :: "HeapWindow \<Rightarrow> uint64" where
  "height w = maximum_address w - minimum_address w"

text \<open>\<^verbatim>\<open>uint32_t width() { return maximum_tick_ - minimum_tick_; }\<close>\<close>

definition width :: "HeapWindow \<Rightarrow> uint32" where
  "width w = maximum_tick w - minimum_tick w"

text \<open>\<^verbatim>\<open>void reset(const HeapWindow &window) { *this = window; }\<close>\<close>

definition reset :: "HeapWindow \<Rightarrow> HeapWindow \<Rightarrow> HeapWindow" where
  "reset this window = window"

section \<open>saturatingAddition\<close>

text \<open>
  What a call can do other than return: run off the end of a function that returns a
  value, or convert a \<^verbatim>\<open>double\<close> to an integer type that cannot hold it. Both
  are undefined behaviour in C++.
\<close>

datatype fault = NoReturn | ConversionUndefined

text \<open>
  \<^verbatim>\<open>template <typename T> int32_t saturatingAddition(double value, T *result)\<close>
  for an unsigned \<open>T\<close> of \<open>LENGTH('a)\<close> bits. The model takes the value stored at
  \<^verbatim>\<open>result\<close> and returns the returned number with the value stored on return.
  \<^verbatim>\<open>std::numeric_limits<T>::max()\<close> is the word \<open>- 1\<close>, all bits set. Each
  comparison of \<^verbatim>\<open>value\<close> with an integer converts the integer to \<^verbatim>\<open>double\<close>
  first, and \<^verbatim>\<open>*result += value\<close> converts \<^verbatim>\<open>*result\<close> to \<^verbatim>\<open>double\<close>,
  adds, and converts the sum back to \<open>T\<close>.
\<close>

definition saturatingAddition ::
  "double \<Rightarrow> 'a::len word \<Rightarrow> fault + (int32 \<times> 'a word)" where
  "saturatingAddition v r =
     (if d_greater v d_zero \<and> d_greater v (d_of_word (- 1 - r))
      then Inr (1, - 1)
      else if d_less v d_zero \<and> d_greater (d_fabs v) (d_of_word r)
      then Inr (- 1, 0)
      else case d_to_word (d_add (d_of_word r) v) of
             None \<Rightarrow> Inl ConversionUndefined
           | Some r' \<Rightarrow> Inr (0, r'))"

section \<open>ContinuousHeapWindow\<close>

text \<open>
  The class has the four bounds of a \<open>HeapWindow\<close> under the same names, and the two
  \<^verbatim>\<open>float\<close> fields \<^verbatim>\<open>x_shift_\<close> and \<^verbatim>\<open>y_shift_\<close>; the record extension
  gives it exactly these six fields (the C++ class does not derive from
  \<^verbatim>\<open>HeapWindow\<close>).
\<close>

record ContinuousHeapWindow = HeapWindow +
  x_shift :: cfloat
  y_shift :: cfloat

text \<open>\<^verbatim>\<open>double height() { return maximum_address_ - minimum_address_; }\<close>\<close>

definition continuous_height :: "ContinuousHeapWindow \<Rightarrow> double" where
  "continuous_height w = d_of_word (maximum_address w - minimum_address w)"

text \<open>\<^verbatim>\<open>double width() { return maximum_tick_ - minimum_tick_; }\<close>\<close>

definition continuous_width :: "ContinuousHeapWindow \<Rightarrow> double" where
  "continuous_width w = d_of_word (maximum_tick w - minimum_tick w)"

text \<open>\<^verbatim>\<open>ContinuousHeapWindow::reset(const HeapWindow &window)\<close>: four assignments.\<close>

definition continuous_reset ::
  "ContinuousHeapWindow \<Rightarrow> HeapWindow \<Rightarrow> ContinuousHeapWindow" where
  "continuous_reset this window =
     this\<lparr>minimum_address := minimum_address window,
          maximum_address := maximum_address window,
          minimum_tick := minimum_tick window,
          maximum_tick := maximum_tick window\<rparr>"

definition getMinimumAddress :: "ContinuousHeapWindow \<Rightarrow> uint64" where
  "getMinimumAddress w = minimum_address w"

text \<open>\<^verbatim>\<open>static_cast<uint32_t>(minimum_address_)\<close>\<close>

definition getMinimumAddressLow32 :: "ContinuousHeapWindow \<Rightarrow> uint32" where
  "getMinimumAddressLow32 w = ucast (minimum_address w)"

text \<open>\<^verbatim>\<open>static_cast<uint32_t>(minimum_address_ >> 32)\<close>\<close>

definition getMinimumAddressHigh32 :: "ContinuousHeapWindow \<Rightarrow> uint32" where
  "getMinimumAddressHigh32 w = ucast (drop_bit 32 (minimum_address w))"

definition getMaximumAddress :: "ContinuousHeapWindow \<Rightarrow> uint64" where
  "getMaximumAddress w = maximum_address w"

definition getMinimumTick :: "ContinuousHeapWindow \<Rightarrow> uint32" where
  "getMinimumTick w = minimum_tick w"

definition getMaximumTick :: "ContinuousHeapWindow \<Rightarrow> uint32" where
  "getMaximumTick w = maximum_tick w"

definition getMinimumAddressAsDouble :: "ContinuousHeapWindow \<Rightarrow> double" where
  "getMinimumAddressAsDouble w = d_of_word (minimum_address w)"

text \<open>
  \<^verbatim>\<open>template <typename T> T saturatedAdd(T value, double addend, T upperlimit,
  T lowerlimit)\<close>, for \<open>T\<close> one of the class's own field types \<^verbatim>\<open>uint64_t\<close> and
  \<^verbatim>\<open>uint32_t\<close>, where \<^verbatim>\<open>upperlimit - value\<close> and \<^verbatim>\<open>value - lowerlimit\<close>
  are computed in \<open>T\<close>. (For a \<open>T\<close> narrower than \<^verbatim>\<open>int\<close> the C++ computes
  the two differences in \<^verbatim>\<open>int\<close>, without wrapping; the model then agrees with it
  only where \<open>lowerlimit \<le> value \<le> upperlimit\<close>.) The function has no
  \<^verbatim>\<open>return\<close> after its two \<^verbatim>\<open>if\<close> blocks.
\<close>

definition saturatedAdd ::
  "'a::len word \<Rightarrow> double \<Rightarrow> 'a word \<Rightarrow> 'a word \<Rightarrow> fault + 'a word" where
  "saturatedAdd v addend upperlimit lowerlimit =
     (if d_greater addend d_zero
      then (if d_greater addend (d_of_word (upperlimit - v)) then Inr upperlimit
            else case d_to_word (d_add (d_of_word v) addend) of
                   None \<Rightarrow> Inl ConversionUndefined
                 | Some r \<Rightarrow> Inr r)
      else if d_less addend d_zero
      then (if d_greater (d_fabs addend) (d_of_word (v - lowerlimit)) then Inr lowerlimit
            else case d_to_word (d_sub (d_of_word v) (d_fabs addend)) of
                   None \<Rightarrow> Inl ConversionUndefined
                 | Some r \<Rightarrow> Inr r)
      else Inl NoReturn)"

section \<open>HeapHistory\<close>

text \<open>
  The fields of \<^verbatim>\<open>HeapConflict\<close>; \<open>allocation_or_free\<close> is true for a
  conflict of an allocation and false for one of a free.
\<close>

record HeapConflict =
  tick :: uint32
  address :: uint64
  allocation_or_free :: bool

text \<open>
  Modelled from the spec: the class \<^verbatim>\<open>HeapBlock\<close> of \<^verbatim>\<open>heapblock.h\<close>, which is
  not among the sources. A block has a start address, a size (its end is start + size), a
  heap identifier, an allocation tick and a free tick that is unset while the block is
  live.
\<close>

record HeapBlock =
  start_address :: uint64
  block_size :: uint64
  heap_id :: uint8
  allocation_tick :: uint32
  free_tick :: "uint32 option"

text \<open>
  The members of \<^verbatim>\<open>HeapHistory\<close>. The cached iterators into \<^verbatim>\<open>heap_blocks_\<close>
  are positions in the vector, as are the values of \<^verbatim>\<open>live_blocks_\<close>.
\<close>

record HeapHistory =
  cached_blocks_sorted_by_address :: "nat list"
  current_tick :: uint32
  current_window :: ContinuousHeapWindow
  grid_rectangle :: ContinuousHeapWindow
  global_area :: HeapWindow
  heap_blocks :: "HeapBlock list"
  live_blocks :: "uint64 \<times> uint8 \<rightharpoonup> nat"
  conflicts :: "HeapConflict list"

text \<open>\<^verbatim>\<open>void setCurrentWindowToGlobal() { current_window_.reset(global_area_); }\<close>\<close>

definition setCurrentWindowToGlobal :: "HeapHistory \<Rightarrow> HeapHistory" where
  "setCurrentWindowToGlobal h =
     h\<lparr>current_window := continuous_reset (current_window h) (global_area h)\<rparr>"

subsection \<open>The event log\<close>

text \<open>
  Modelled from the spec: the constructor \<^verbatim>\<open>HeapConflict(tick, address, alloc)\<close> and
  the bodies of \<^verbatim>\<open>recordMallocConflict\<close> and \<^verbatim>\<open>recordFreeConflict\<close>, which are in
  no source file. A conflict is the record of tick, address and operation kind, appended
  to the conflict log; nothing else changes.
\<close>

definition recordMallocConflict :: "uint64 \<Rightarrow> uint64 \<Rightarrow> uint8 \<Rightarrow> HeapHistory \<Rightarrow> HeapHistory" where
  "recordMallocConflict a sz hid h =
     h\<lparr>conflicts := conflicts h @
          [\<lparr>tick = current_tick h, address = a, allocation_or_free = True\<rparr>]\<rparr>"

definition recordFreeConflict :: "uint64 \<Rightarrow> uint8 \<Rightarrow> HeapHistory \<Rightarrow> HeapHistory" where
  "recordFreeConflict a hid h =
     h\<lparr>conflicts := conflicts h @
          [\<lparr>tick = current_tick h, address = a, allocation_or_free = False\<rparr>]\<rparr>"

text \<open>
  Modelled from the spec: how an event grows the global area (the body is in no source
  file). The minima move down and the maxima up to take in the address range and the
  tick; the end of the range is start + size, held at the largest address when the sum
  does not fit.
\<close>

definition saturating_end :: "uint64 \<Rightarrow> uint64 \<Rightarrow> uint64" where
  "saturating_end a sz = (if unat a + unat sz < 2 ^ 64 then a + sz else - 1)"

definition extend_global_area :: "uint64 \<Rightarrow> uint64 \<Rightarrow> uint32 \<Rightarrow> HeapWindow \<Rightarrow> HeapWindow" where
  "extend_global_area lo hi t g =
     \<lparr>minimum_address = min (minimum_address g) lo,
      maximum_address = max (maximum_address g) hi,
      minimum_tick = min (minimum_tick g) t,
      maximum_tick = max (maximum_tick g) t\<rparr>"

text \<open>
  Modelled from the spec: the body of \<^verbatim>\<open>recordMalloc\<close>, which is in no source
  file. A live entry for the key is a double-alloc conflict: it is logged, and the entry
  is overwritten with the new block, which is appended to the log with the current tick
  as its allocation tick; the counter then advances.
\<close>

definition recordMalloc :: "uint64 \<Rightarrow> uint64 \<Rightarrow> uint8 \<Rightarrow> HeapHistory \<Rightarrow> HeapHistory" where
  "recordMalloc a sz hid h =
     (let h1 = (case live_blocks h (a, hid) of
                  None \<Rightarrow> h
                | Some stale \<Rightarrow> recordMallocConflict a sz hid h);
          b = \<lparr>start_address = a, block_size = sz, heap_id = hid,
               allocation_tick = current_tick h1, free_tick = None\<rparr>
      in h1\<lparr>heap_blocks := heap_blocks h1 @ [b],
             live_blocks := (live_blocks h1)((a, hid) \<mapsto> length (heap_blocks h1)),
             global_area :=
               extend_global_area a (saturating_end a sz) (current_tick h1) (global_area h1),
             current_tick := current_tick h1 + 1\<rparr>)"

text \<open>
  Modelled from the spec: the body of \<^verbatim>\<open>recordFree\<close>, which is in no source file.
  Without a live entry for the key the free is logged as a conflict and nothing else
  happens; with one, the block it names gets the current tick as its free tick, the
  counter advances and the entry is removed. An entry that names no block of the log
  (none arises from recording events) leaves the log as it is.
\<close>

definition recordFree :: "uint64 \<Rightarrow> uint8 \<Rightarrow> HeapHistory \<Rightarrow> HeapHistory" where
  "recordFree a hid h =
     (case live_blocks h (a, hid) of
        None \<Rightarrow> recordFreeConflict a hid h
      | Some i \<Rightarrow>
          h\<lparr>heap_blocks :=
               (heap_blocks h)[i := (heap_blocks h ! i)\<lparr>free_tick := Some (current_tick h)\<rparr>],
            live_blocks := (live_blocks h)((a, hid) := None),
            global_area :=
              extend_global_area (minimum_address (global_area h))
                (maximum_address (global_area h)) (current_tick h) (global_area h),
            current_tick := current_tick h + 1\<rparr>)"

text \<open>
  Modelled from the spec: \<^verbatim>\<open>recordRealloc\<close> is a free of the old address followed by
  a malloc of the new one.
\<close>

definition recordRealloc :: "uint64 \<Rightarrow> uint64 \<Rightarrow> uint64 \<Rightarrow> uint8 \<Rightarrow> HeapHistory \<Rightarrow> HeapHistory" where
  "recordRealloc old_address new_address sz hid h =
     recordMalloc new_address sz hid (recordFree old_address hid h)"

text \<open>
  Modelled from the spec: the constructor \<^verbatim>\<open>HeapHistory()\<close>. The history is empty,
  the counter is 0, and the global area is the empty rectangle that the first event
  replaces (minima at the largest value, maxima at 0). The windows are given, the default
  constructor of \<^verbatim>\<open>ContinuousHeapWindow\<close> leaving them unset.
\<close>

definition empty_history :: "ContinuousHeapWindow \<Rightarrow> HeapHistory" where
  "empty_history w =
     \<lparr>cached_blocks_sorted_by_address = [], current_tick = 0, current_window = w,
      grid_rectangle = w,
      global_area = \<lparr>minimum_address = - 1, maximum_address = 0,
                      minimum_tick = - 1, maximum_tick = 0\<rparr>,
      heap_blocks = [], live_blocks = Map.empty, conflicts = []\<rparr>"

subsection \<open>Event streams\<close>

text \<open>
  The ingestion interface: a stream is a time-ordered sequence of the three record
  operations, applied one after the other.
\<close>

datatype event =
  Malloc uint64 uint64 uint8
  | Free uint64 uint8
  | Realloc uint64 uint64 uint64 uint8

fun record_event :: "event \<Rightarrow> HeapHistory \<Rightarrow> HeapHistory" where
  "record_event (Malloc a sz hid) h = recordMalloc a sz hid h"
| "record_event (Free a hid) h = recordFree a hid h"
| "record_event (Realloc old_address new_address sz hid) h =
     recordRealloc old_address new_address sz hid h"

fun record_events :: "event list \<Rightarrow> HeapHistory \<Rightarrow> HeapHistory" where
  "record_events [] h = h"
| "record_events (e # es) h = record_events es (record_event e h)"

text \<open>
  The live index holds positions of blocks of the log. Every history grown from the empty
  one is of this kind.
\<close>

definition live_in_log :: "HeapHistory \<Rightarrow> bool" where
  "live_in_log h = (\<forall>i\<in>ran (live_blocks h). i < length (heap_blocks h))"

text \<open>
  A block of the log that no live entry names: \<open>recordFree\<close> reaches a block only
  through the live index, so nothing can give this block a free tick.
\<close>

definition orphaned :: "nat \<Rightarrow> HeapBlock \<Rightarrow> HeapHistory \<Rightarrow> bool" where
  "orphaned i b h =
     (i < length (heap_blocks h) \<and> heap_blocks h ! i = b \<and> i \<notin> ran (live_blocks h))"

text \<open>The keys (address and heap) that an event is about.\<close>

fun event_keys :: "event \<Rightarrow> (uint64 \<times> uint8) list" where
  "event_keys (Malloc a sz hid) = [(a, hid)]"
| "event_keys (Free a hid) = [(a, hid)]"
| "event_keys (Realloc old_address new_address sz hid) =
     [(old_address, hid), (new_address, hid)]"

text \<open>
  A block of the log that the live index names under one key and no other: only an event
  of that key can reach it.
\<close>

definition held_by :: "uint64 \<times> uint8 \<Rightarrow> nat \<Rightarrow> HeapBlock \<Rightarrow> HeapHistory \<Rightarrow> bool" where
  "held_by k i b h =
     (i < length (heap_blocks h) \<and> heap_blocks h ! i = b \<and> live_blocks h k = Some i \<and>
      (\<forall>k'. live_blocks h k' = Some i \<longrightarrow> k' = k))"

subsection \<open>The spatial index and the point queries\<close>

text \<open>
  Modelled from the spec: \<^verbatim>\<open>updateCachedSortedIterators\<close> rebuilds, from scratch, the
  ordering of the block positions by start address.
\<close>

definition updateCachedSortedIterators :: "HeapHistory \<Rightarrow> HeapHistory" where
  "updateCachedSortedIterators h =
     h\<lparr>cached_blocks_sorted_by_address :=
          sort_key (\<lambda>i. start_address (heap_blocks h ! i)) [0..<length (heap_blocks h)]\<rparr>"

text \<open>
  Modelled from the spec: a block answers a point query when its address range
  [start, start + size) contains the address and its lifetime [allocation tick, free tick
  or open) contains the tick.
\<close>

definition block_covers :: "HeapBlock \<Rightarrow> uint64 \<Rightarrow> uint32 \<Rightarrow> bool" where
  "block_covers b a t =
     (start_address b \<le> a \<and> unat a < unat (start_address b) + unat (block_size b) \<and>
      allocation_tick b \<le> t \<and>
      (case free_tick b of None \<Rightarrow> True | Some f \<Rightarrow> t < f))"

text \<open>
  Modelled from the spec: the tie-break of both point queries. Of two blocks that answer
  the query the one with the later allocation tick is returned; two blocks of one tick
  (the counter has wrapped) are told apart by their positions in the log.
\<close>

definition later_block :: "HeapBlock \<times> nat \<Rightarrow> HeapBlock \<times> nat \<Rightarrow> bool" where
  "later_block c best =
     (allocation_tick (fst best) < allocation_tick (fst c) \<or>
      (allocation_tick (fst best) = allocation_tick (fst c) \<and> snd best < snd c))"

definition better_match ::
  "HeapBlock \<times> nat \<Rightarrow> uint64 \<Rightarrow> uint32 \<Rightarrow> (HeapBlock \<times> nat) option \<Rightarrow> (HeapBlock \<times> nat) option" where
  "better_match c a t found =
     (if block_covers (fst c) a t \<and> (case found of None \<Rightarrow> True | Some best \<Rightarrow> later_block c best)
      then Some c else found)"

text \<open>
  Modelled from the spec: \<^verbatim>\<open>getBlockAtSlow\<close>, the reference linear scan of the log
  from its first block to its last. \<open>None\<close> is the result \<^verbatim>\<open>false\<close>; otherwise
  the block and its position are what the call stores through \<^verbatim>\<open>result\<close> and
  \<^verbatim>\<open>index\<close>.
\<close>

fun scan_blocks ::
  "HeapBlock list \<Rightarrow> nat \<Rightarrow> uint64 \<Rightarrow> uint32 \<Rightarrow> (HeapBlock \<times> nat) option \<Rightarrow> (HeapBlock \<times> nat) option" where
  "scan_blocks [] i a t found = found"
| "scan_blocks (b # bs) i a t found = scan_blocks bs (Suc i) a t (better_match (b, i) a t found)"

definition getBlockAtSlow :: "HeapHistory \<Rightarrow> uint64 \<Rightarrow> uint32 \<Rightarrow> (HeapBlock \<times> nat) option" where
  "getBlockAtSlow h a t = scan_blocks (heap_blocks h) 0 a t None"

text \<open>
  Modelled from the spec: \<^verbatim>\<open>getBlockAt\<close>, the accelerated query. A binary search in
  the positions sorted by start address finds where the blocks that start above the
  address begin; the candidates are the positions before that place, scanned from there
  down to the lowest start address.
\<close>

function upper_bound :: "HeapBlock list \<Rightarrow> nat list \<Rightarrow> uint64 \<Rightarrow> nat \<Rightarrow> nat \<Rightarrow> nat" where
  "upper_bound bs cache a lo hi =
     (if lo < hi
      then (let mid = lo + (hi - lo) div 2
            in if start_address (bs ! (cache ! mid)) \<le> a
               then upper_bound bs cache a (Suc mid) hi
               else upper_bound bs cache a lo mid)
      else lo)"
  by pat_completeness auto
termination
  by (relation "measure (\<lambda>(bs, cache, a, lo, hi). hi - lo)") auto

declare upper_bound.simps [simp del]

fun scan_candidates ::
  "HeapBlock list \<Rightarrow> nat list \<Rightarrow> nat \<Rightarrow> uint64 \<Rightarrow> uint32 \<Rightarrow> (HeapBlock \<times> nat) option \<Rightarrow> (HeapBlock \<times> nat) option" where
  "scan_candidates bs cache 0 a t found = found"
| "scan_candidates bs cache (Suc k) a t found =
     scan_candidates bs cache k a t (better_match (bs ! (cache ! k), cache ! k) a t found)"

definition getBlockAt :: "HeapHistory \<Rightarrow> uint64 \<Rightarrow> uint32 \<Rightarrow> (HeapBlock \<times> nat) option" where
  "getBlockAt h a t =
     (let cache = cached_blocks_sorted_by_address h;
          p = upper_bound (heap_blocks h) cache a 0 (length cache)
      in scan_candidates (heap_blocks h) cache p a t None)"


subsection \<open>What a point query has to return\<close>

text \<open>
  The contract of the point queries, in the spec's words: among the blocks at the given
  positions that answer the query, the result is the one allocated last (\<open>None\<close> when
  no block answers).
\<close>

definition best_of ::
  "HeapBlock list \<Rightarrow> nat set \<Rightarrow> uint64 \<Rightarrow> uint32 \<Rightarrow> (HeapBlock \<times> nat) option \<Rightarrow> bool" where
  "best_of bs S a t r =
     (case r of
        None \<Rightarrow> (\<forall>j\<in>S. \<not> block_covers (bs ! j) a t)
      | Some c \<Rightarrow>
          snd c \<in> S \<and> fst c = bs ! snd c \<and> block_covers (fst c) a t \<and>
          (\<forall>j\<in>S. block_covers (bs ! j) a t \<longrightarrow> j = snd c \<or> later_block c (bs ! j, j)))"

section \<open>Properties of the windows\<close>

text \<open>
  C8. For a \<open>HeapWindow\<close> whose maxima are not below its minima, \<open>height\<close> is
  exactly the maximum address minus the minimum address and \<open>width\<close> exactly the
  maximum tick minus the minimum tick, as integers: the unsigned subtractions do not wrap,
  and both differences are non-negative.
\<close>

theorem HeapWindow_height_width_exact:
  assumes "minimum_address w \<le> maximum_address w"
    and "minimum_tick w \<le> maximum_tick w"
  shows "uint (height w) = uint (maximum_address w) - uint (minimum_address w) \<and>
         uint (width w) = uint (maximum_tick w) - uint (minimum_tick w) \<and>
         0 \<le> uint (maximum_address w) - uint (minimum_address w) \<and>
         0 \<le> uint (maximum_tick w) - uint (minimum_tick w)"
proof -
  have "uint (maximum_address w - minimum_address w)
      = uint (maximum_address w) - uint (minimum_address w)"
    using assms(1) by (simp only: uint_minus_simple_alt)
  moreover have "uint (maximum_tick w - minimum_tick w)
      = uint (maximum_tick w) - uint (minimum_tick w)"
    using assms(2) by (simp only: uint_minus_simple_alt)
  moreover have "uint (minimum_address w) \<le> uint (maximum_address w)"
    using assms(1) by (simp only: word_le_def)
  moreover have "uint (minimum_tick w) \<le> uint (maximum_tick w)"
    using assms(2) by (simp only: word_le_def)
  ultimately show ?thesis
    by (simp add: height_def width_def)
qed

theorem HeapWindow_height_width_exact_witness:
  "minimum_address \<lparr>minimum_address = 0x1000, maximum_address = 0x1010,
       minimum_tick = 2, maximum_tick = 7\<rparr>
     \<le> maximum_address \<lparr>minimum_address = 0x1000, maximum_address = 0x1010,
       minimum_tick = 2, maximum_tick = 7\<rparr> \<and>
   minimum_tick \<lparr>minimum_address = 0x1000, maximum_address = 0x1010,
       minimum_tick = 2, maximum_tick = 7\<rparr>
     \<le> maximum_tick \<lparr>minimum_address = 0x1000, maximum_address = 0x1010,
       minimum_tick = 2, maximum_tick = 7\<rparr> \<and>
   uint (height \<lparr>minimum_address = 0x1000, maximum_address = 0x1010,
       minimum_tick = 2, maximum_tick = 7\<rparr>) = 16 \<and>
   uint (width \<lparr>minimum_address = 0x1000, maximum_address = 0x1010,
       minimum_tick = 2, maximum_tick = 7\<rparr>) = 5"
  using HeapWindow_height_width_exact
    [of "\<lparr>minimum_address = 0x1000, maximum_address = 0x1010,
       minimum_tick = 2, maximum_tick = 7\<rparr>"]
  by simp

lemma unat_low32: "unat (ucast (x :: uint64) :: uint32) = unat x mod 2 ^ 32"
  by (simp add: unsigned_ucast_eq take_bit_eq_mod)

lemma unat_high32: "unat (ucast (drop_bit 32 (x :: uint64)) :: uint32) = unat x div 2 ^ 32"
proof -
  have "unat x < 2 ^ 64"
    using unsigned_less [of x, where 'a = nat] by simp
  then have small: "unat x div 2 ^ 32 < 2 ^ 32"
    by (simp add: less_mult_imp_div_less)
  have "unat (ucast (drop_bit 32 x) :: uint32) = take_bit 32 (drop_bit 32 (unat x))"
    by (simp add: unsigned_ucast_eq unat_drop_bit_eq del: drop_bit_eq_div)
  also have "\<dots> = (unat x div 2 ^ 32) mod 2 ^ 32"
    by (simp only: take_bit_eq_mod drop_bit_eq_div)
  also have "\<dots> = unat x div 2 ^ 32"
    using small by (rule mod_less)
  finally show ?thesis .
qed

text \<open>
  C9. The two 32-bit halves of the minimum address recombine to it: the high half times
  \<open>2 ^ 32\<close> plus the low half is the 64-bit minimum address.
\<close>

theorem minimum_address_split_recombines:
  "unat (getMinimumAddressHigh32 w) * 2 ^ 32 + unat (getMinimumAddressLow32 w)
     = unat (getMinimumAddress w)"
proof -
  have "unat (getMinimumAddressHigh32 w) = unat (minimum_address w) div 2 ^ 32"
    unfolding getMinimumAddressHigh32_def by (rule unat_high32)
  moreover have "unat (getMinimumAddressLow32 w) = unat (minimum_address w) mod 2 ^ 32"
    unfolding getMinimumAddressLow32_def by (rule unat_low32)
  ultimately show ?thesis
    unfolding getMinimumAddress_def by (simp only: div_mult_mod_eq)
qed

text \<open>
  C10. \<open>ContinuousHeapWindow::reset\<close> takes the four bounds of the given window and
  leaves \<open>x_shift\<close> and \<open>y_shift\<close> as they were; so does \<open>setCurrentWindowToGlobal\<close>
  to the current window, whose bounds become those of the global area.
\<close>

theorem reset_keeps_shifts:
  "x_shift (continuous_reset w g) = x_shift w \<and>
   y_shift (continuous_reset w g) = y_shift w \<and>
   minimum_address (continuous_reset w g) = minimum_address g \<and>
   maximum_address (continuous_reset w g) = maximum_address g \<and>
   minimum_tick (continuous_reset w g) = minimum_tick g \<and>
   maximum_tick (continuous_reset w g) = maximum_tick g \<and>
   x_shift (current_window (setCurrentWindowToGlobal h)) = x_shift (current_window h) \<and>
   y_shift (current_window (setCurrentWindowToGlobal h)) = y_shift (current_window h) \<and>
   minimum_address (current_window (setCurrentWindowToGlobal h)) = minimum_address (global_area h) \<and>
   maximum_address (current_window (setCurrentWindowToGlobal h)) = maximum_address (global_area h) \<and>
   minimum_tick (current_window (setCurrentWindowToGlobal h)) = minimum_tick (global_area h) \<and>
   maximum_tick (current_window (setCurrentWindowToGlobal h)) = maximum_tick (global_area h)"
  by (simp add: continuous_reset_def setCurrentWindowToGlobal_def)

section \<open>Properties of the saturating arithmetic\<close>

subsection \<open>Types whose values are all binary64 values\<close>

text \<open>
  An unsigned type of at most 53 bits converts to \<^verbatim>\<open>double\<close> without rounding.
  For such a type the sum or difference formed by the two saturating functions lies,
  before rounding, between two integers of the type; rounding and dropping the fraction
  keep it there.
\<close>

lemma nbits_nonneg: "0 \<le> nbits n"
  by (induction n rule: nbits.induct) (simp add: nbits.simps)

lemma nbits_le:
  "n < 2 ^ b \<Longrightarrow> nbits n \<le> int b"
proof (induction n arbitrary: b rule: nbits.induct)
  case (1 n)
  show ?case
  proof (cases "n \<le> 0")
    case True
    then show ?thesis by (simp add: nbits.simps)
  next
    case False
    then obtain c where b: "b = Suc c"
      using "1.prems" by (cases b) auto
    have "n div 2 < 2 ^ c"
      using "1.prems" b by auto
    from "1.IH" [OF False this] show ?thesis
      using False b by (simp add: nbits.simps)
  qed
qed

lemma rne_shift_nonneg: "0 \<le> m \<Longrightarrow> 0 \<le> rne_shift m k"
  by (auto simp: rne_shift_def Let_def pos_imp_zdiv_nonneg_iff)

lemma rne_shift_le:
  assumes "m \<le> c * 2 ^ k"
  shows "rne_shift m k \<le> c"
proof (cases "k = 0")
  case True
  with assms show ?thesis by (simp add: rne_shift_def)
next
  case False
  define q where "q = m div 2 ^ k"
  define r where "r = m mod 2 ^ k"
  have m: "m = q * 2 ^ k + r"
    unfolding q_def r_def by (rule div_mult_mod_eq [symmetric])
  have r0: "0 \<le> r" by (simp add: r_def)
  have qc: "q \<le> c"
  proof -
    have "q = m div 2 ^ k" by (simp add: q_def)
    also have "\<dots> \<le> (c * 2 ^ k) div 2 ^ k"
      using assms by (intro zdiv_mono1) simp_all
    finally show ?thesis by simp
  qed
  have up: "q + 1 \<le> c" if "0 < r"
  proof (rule ccontr)
    assume "\<not> q + 1 \<le> c"
    with qc have "q = c" by simp
    with m that assms show False by simp
  qed
  have h: "(0::int) < 2 ^ (k - 1)" by simp
  have "rne_shift m k = q \<or> (rne_shift m k = q + 1 \<and> 2 ^ (k - 1) \<le> r)"
    unfolding rne_shift_def Let_def q_def [symmetric] r_def [symmetric]
    using False by auto
  then show ?thesis
  proof
    assume "rne_shift m k = q"
    with qc show ?thesis by simp
  next
    assume a: "rne_shift m k = q + 1 \<and> 2 ^ (k - 1) \<le> r"
    with h have "0 < r" by linarith
    from up [OF this] a show ?thesis by simp
  qed
qed


lemma rne_shift_ge:
  assumes "c * 2 ^ k \<le> m"
  shows "c \<le> rne_shift m k"
proof (cases "k = 0")
  case True
  with assms show ?thesis by (simp add: rne_shift_def)
next
  case False
  have "c = (c * 2 ^ k) div 2 ^ k" by simp
  also have "\<dots> \<le> m div 2 ^ k"
    using assms by (intro zdiv_mono1) simp_all
  finally have "c \<le> m div 2 ^ k" .
  then show ?thesis
    using False by (auto simp: rne_shift_def Let_def)
qed

lemma nbits_le_mult:
  assumes "0 \<le> c" and "c < 2 ^ b" and "m \<le> c * 2 ^ s"
  shows "nbits m \<le> int b + int s"
proof -
  have "c + 1 \<le> 2 ^ b" using assms(2) by simp
  then have "(c + 1) * 2 ^ s \<le> 2 ^ b * (2 ^ s :: int)"
    by (intro mult_right_mono) simp_all
  moreover have "c * 2 ^ s < (c + 1) * (2 ^ s :: int)"
    by (simp add: algebra_simps)
  ultimately have "c * 2 ^ s < 2 ^ b * (2 ^ s :: int)"
    by (rule less_le_trans [rotated])
  then have "c * 2 ^ s < 2 ^ (b + s)"
    by (simp only: power_add)
  with assms(3) have "m < 2 ^ (b + s)" by (rule le_less_trans)
  from nbits_le [OF this] show ?thesis by simp
qed

text \<open>
  Rounding a number between two integers below \<open>2 ^ 53\<close> and dropping the fraction
  gives an integer between the two: the conversion back to the integer type is defined.
\<close>

lemma round_then_truncate:
  fixes l c m :: int and s :: nat
  assumes b: "LENGTH('a::len) \<le> 53"
    and l: "0 \<le> l" and c: "c < 2 ^ LENGTH('a)"
    and lo: "l * 2 ^ s \<le> m" and hi: "m \<le> c * 2 ^ s"
  shows "\<exists>r :: 'a word. d_to_word (round_double m (- int s)) = Some r \<and>
           l \<le> uint r \<and> uint r \<le> c"
proof -
  have m0: "0 \<le> m"
    using l lo by (meson mult_nonneg_nonneg order_trans zero_le_numeral zero_le_power)
  have lc: "l \<le> c"
  proof -
    from lo hi have "l * 2 ^ s \<le> c * 2 ^ s" by (rule order_trans)
    then show ?thesis by simp
  qed
  then have c0: "0 \<le> c" using l by simp
  define k where "k = nat (max (nbits \<bar>m\<bar> - 53) (- 1074 - (- int s)))"
  have "nbits \<bar>m\<bar> \<le> int LENGTH('a) + int s"
    using nbits_le_mult [OF c0 c hi] m0 by simp
  then have ks: "k \<le> s"
    using b by (simp add: k_def)
  define d where "d = s - k"
  have s: "s = d + k" using ks by (simp add: d_def)
  define m' where "m' = rne_shift m k"
  have hi': "m' \<le> c * 2 ^ d"
    unfolding m'_def using hi by (intro rne_shift_le) (simp add: s power_add)
  have lo': "l * 2 ^ d \<le> m'"
    unfolding m'_def using lo by (intro rne_shift_ge) (simp add: s power_add)
  have m'0: "0 \<le> m'"
    unfolding m'_def using m0 by (rule rne_shift_nonneg)
  have "nbits \<bar>m'\<bar> \<le> int LENGTH('a) + int d"
    using nbits_le_mult [OF c0 c hi'] m'0 by simp
  then have no_overflow: "\<not> 1024 < nbits \<bar>m'\<bar> + (- int s + int k)"
    using b by (simp add: s)
  have "round_double m (- int s) =
      (if 1024 < nbits \<bar>m'\<bar> + (- int s + int k)
       then (if 0 < m' then PlusInf else MinusInf)
       else Finite m' (- int s + int k))"
    unfolding m'_def k_def round_double_def Let_def by (rule refl)
  also have "\<dots> = Finite m' (- int s + int k)"
    using no_overflow by (simp only: if_False)
  also have "- int s + int k = - int d"
    by (simp add: s)
  finally have rd: "round_double m (- int s) = Finite m' (- int d)" .
  define t where "t = m' div 2 ^ d"
  have tr: "d_truncate m' (- int d) = t"
    using m'0 by (cases "d = 0") (simp_all add: d_truncate_def t_def)
  have t_hi: "t \<le> c"
  proof -
    have "t \<le> (c * 2 ^ d) div 2 ^ d"
      unfolding t_def using hi' by (intro zdiv_mono1) simp_all
    then show ?thesis by simp
  qed
  have t_lo: "l \<le> t"
  proof -
    have "(l * 2 ^ d) div 2 ^ d \<le> t"
      unfolding t_def using lo' by (intro zdiv_mono1) simp_all
    then show ?thesis by simp
  qed
  have t_range: "0 \<le> t" "t < 2 ^ LENGTH('a)"
    using t_lo l t_hi c by simp_all
  have "d_to_word (round_double m (- int s)) = Some (word_of_int t :: 'a word)"
    using t_range by (simp add: rd tr)
  moreover have "uint (word_of_int t :: 'a word) = t"
    using t_range by (simp add: uint_word_of_int take_bit_int_eq_self)
  ultimately show ?thesis
    using t_lo t_hi by simp
qed

lemma d_of_word_exact:
  fixes w :: "'a::len word"
  assumes "LENGTH('a) \<le> 53"
  shows "d_of_word w = Finite (uint w) 0"
proof -
  have "uint w < 2 ^ LENGTH('a)" by (rule uint_lt2p)
  from nbits_le [OF this] have "nbits (uint w) \<le> 53"
    using assms by simp
  then show ?thesis
    by (simp add: d_of_word_def round_double_def rne_shift_def Let_def)
qed


lemma d_greater_zero: "d_greater (Finite m e) d_zero \<longleftrightarrow> 0 < m"
  by (simp add: d_greater_def d_zero_def zero_less_mult_iff Let_def)

lemma d_less_zero: "d_less (Finite m e) d_zero \<longleftrightarrow> m < 0"
  by (simp add: d_zero_def mult_less_0_iff Let_def)

lemma d_greater_integer:
  "d_greater (Finite m e) (Finite c 0) \<longleftrightarrow>
     c * 2 ^ nat (- min 0 e) < m * 2 ^ nat (e - min 0 e)"
  by (simp add: d_greater_def Let_def)

lemma d_add_integer:
  "d_add (Finite u 0) (Finite m e) =
     round_double (u * 2 ^ nat (- min 0 e) + m * 2 ^ nat (e - min 0 e))
       (- int (nat (- min 0 e)))"
  by (simp add: Let_def)

lemma uint_max_minus:
  "uint (- 1 - r :: 'a::len word) = 2 ^ LENGTH('a) - 1 - uint r"
proof -
  have "uint (- 1 - r) = uint (- 1 :: 'a word) - uint r"
    by (simp only: uint_minus_simple_alt [symmetric]) simp
  also have "uint (- 1 :: 'a word) = 2 ^ LENGTH('a) - 1"
    by (simp add: unsigned_minus_1_eq_mask mask_eq_exp_minus_1)
  finally show ?thesis .
qed

text \<open>
  For a type of at most 53 bits (every value of \<^verbatim>\<open>uint32_t\<close> is a \<^verbatim>\<open>double\<close>)
  and a value that is not a NaN, \<open>saturatingAddition\<close> always returns, with one of its
  three results.
\<close>

lemma saturatingAddition_defined:
  fixes r :: "'a::len word"
  assumes b: "LENGTH('a) \<le> 53" and v: "v \<noteq> NaN"
  shows "\<exists>c r'. saturatingAddition v r = Inr (c, r')"
proof (cases v)
  case (Finite m e)
  define s where "s = nat (- min 0 e)"
  define n where "n = nat (e - min 0 e)"
  define M where "M = uint r * 2 ^ s + m * 2 ^ n"
  show ?thesis
  proof (cases "(0 < m \<and> (2 ^ LENGTH('a) - 1 - uint r) * 2 ^ s < m * 2 ^ n) \<or>
                (m < 0 \<and> uint r * 2 ^ s < \<bar>m\<bar> * 2 ^ n)")
    case True
    then show ?thesis
      unfolding saturatingAddition_def Finite d_of_word_exact [OF b]
      by (auto simp: d_greater_zero d_less_zero d_greater_integer uint_max_minus s_def n_def)
  next
    case False
    have u: "0 \<le> uint r" "uint r \<le> 2 ^ LENGTH('a) - 1"
      using uint_lt2p [of r] by simp_all
    have lo: "0 * 2 ^ s \<le> M"
    proof (cases "m < 0")
      case True
      with False have "\<bar>m\<bar> * 2 ^ n \<le> uint r * 2 ^ s" by simp
      with True show ?thesis by (simp add: M_def)
    next
      case False
      then have "0 \<le> m * 2 ^ n" by simp
      with u(1) show ?thesis by (simp add: M_def)
    qed
    have hi: "M \<le> (2 ^ LENGTH('a) - 1) * 2 ^ s"
    proof (cases "0 < m")
      case True
      with False have "m * 2 ^ n \<le> (2 ^ LENGTH('a) - 1 - uint r) * 2 ^ s" by simp
      then show ?thesis by (simp add: M_def algebra_simps)
    next
      case False
      then have "m * 2 ^ n \<le> 0" by (simp add: mult_le_0_iff)
      moreover have "uint r * 2 ^ s \<le> (2 ^ LENGTH('a) - 1) * 2 ^ s"
        using u(2) by (intro mult_right_mono) simp_all
      ultimately show ?thesis unfolding M_def by linarith
    qed
    have "(2 ^ LENGTH('a) - 1 :: int) < 2 ^ LENGTH('a)" by simp
    from round_then_truncate [OF b order_refl this lo hi]
    obtain r' :: "'a word" where "d_to_word (round_double M (- int s)) = Some r'"
      by blast
    then have "d_to_word (d_add (Finite (uint r) 0) (Finite m e)) = Some r'"
      by (simp only: d_add_integer M_def s_def n_def)
    with False show ?thesis
      unfolding saturatingAddition_def Finite d_of_word_exact [OF b]
      by (auto simp: d_greater_zero d_less_zero d_greater_integer uint_max_minus s_def n_def)
  qed
next
  case PlusInf
  then show ?thesis
    by (simp add: saturatingAddition_def d_of_word_exact [OF b] d_greater_def d_zero_def)
next
  case MinusInf
  then show ?thesis
    by (simp add: saturatingAddition_def d_of_word_exact [OF b] d_greater_def d_zero_def)
next
  case NaN
  with v show ?thesis by simp
qed


text \<open>
  For a type of at most 53 bits, a value between the limits and an addend that is
  greater or less than zero, \<open>saturatedAdd\<close> returns a value between the limits.
\<close>

lemma saturatedAdd_in_range:
  fixes v upperlimit lowerlimit :: "'a::len word"
  assumes b: "LENGTH('a) \<le> 53"
    and lv: "lowerlimit \<le> v" and vu: "v \<le> upperlimit"
    and nz: "d_greater addend d_zero \<or> d_less addend d_zero"
  shows "\<exists>r. saturatedAdd v addend upperlimit lowerlimit = Inr r \<and>
           lowerlimit \<le> r \<and> r \<le> upperlimit"
proof (cases addend)
  case (Finite m e)
  define s where "s = nat (- min 0 e)"
  define n where "n = nat (e - min 0 e)"
  have L0: "0 \<le> uint lowerlimit" by simp
  have LV: "uint lowerlimit \<le> uint v" using lv by (simp only: word_le_def)
  have VU: "uint v \<le> uint upperlimit" using vu by (simp only: word_le_def)
  have V2: "uint v < 2 ^ LENGTH('a)" by (rule uint_lt2p)
  have U2: "uint upperlimit < 2 ^ LENGTH('a)" by (rule uint_lt2p)
  have diff_up: "uint (upperlimit - v) = uint upperlimit - uint v"
    using vu by (simp only: uint_minus_simple_alt)
  have diff_lo: "uint (v - lowerlimit) = uint v - uint lowerlimit"
    using lv by (simp only: uint_minus_simple_alt)
  consider (pos) "0 < m" | (neg) "m < 0"
    using nz Finite by (auto simp: d_greater_zero d_less_zero)
  then show ?thesis
  proof cases
    case pos
    show ?thesis
    proof (cases "(uint upperlimit - uint v) * 2 ^ s < m * 2 ^ n")
      case True
      then have "saturatedAdd v addend upperlimit lowerlimit = Inr upperlimit"
        unfolding saturatedAdd_def Finite d_of_word_exact [OF b]
        using pos by (simp add: d_greater_zero d_greater_integer diff_up s_def n_def)
      with lv vu show ?thesis by simp
    next
      case False
      define M where "M = uint v * 2 ^ s + m * 2 ^ n"
      have lo: "uint v * 2 ^ s \<le> M"
        using pos by (simp add: M_def)
      have hi: "M \<le> uint upperlimit * 2 ^ s"
        using False by (simp add: M_def algebra_simps)
      have "0 \<le> uint v" by simp
      from round_then_truncate [OF b this U2 lo hi]
      obtain r :: "'a word" where r: "d_to_word (round_double M (- int s)) = Some r"
          "uint v \<le> uint r" "uint r \<le> uint upperlimit"
        by blast
      have "d_to_word (d_add (Finite (uint v) 0) (Finite m e)) = Some r"
        using r(1) by (simp only: d_add_integer M_def s_def n_def)
      then have "saturatedAdd v addend upperlimit lowerlimit = Inr r"
        unfolding saturatedAdd_def Finite d_of_word_exact [OF b]
        using pos False by (simp add: d_greater_zero d_greater_integer diff_up s_def n_def)
      moreover have "lowerlimit \<le> r" "r \<le> upperlimit"
        using r(2,3) LV by (simp_all add: word_le_def)
      ultimately show ?thesis by simp
    qed
  next
    case neg
    then have not_pos: "\<not> 0 < m" by simp
    show ?thesis
    proof (cases "(uint v - uint lowerlimit) * 2 ^ s < \<bar>m\<bar> * 2 ^ n")
      case True
      then have "saturatedAdd v addend upperlimit lowerlimit = Inr lowerlimit"
        unfolding saturatedAdd_def Finite d_of_word_exact [OF b]
        using neg not_pos
        by (simp add: d_greater_zero d_less_zero d_greater_integer diff_lo s_def n_def)
      with lv vu show ?thesis by simp
    next
      case False
      define M where "M = uint v * 2 ^ s + (- \<bar>m\<bar>) * 2 ^ n"
      have lo: "uint lowerlimit * 2 ^ s \<le> M"
        using False by (simp add: M_def algebra_simps)
      have hi: "M \<le> uint v * 2 ^ s"
        using neg by (simp add: M_def mult_le_0_iff)
      from round_then_truncate [OF b L0 V2 lo hi]
      obtain r :: "'a word" where r: "d_to_word (round_double M (- int s)) = Some r"
          "uint lowerlimit \<le> uint r" "uint r \<le> uint v"
        by blast
      have "d_to_word (d_add (Finite (uint v) 0) (Finite (- \<bar>m\<bar>) e)) = Some r"
        using r(1) by (simp only: d_add_integer M_def s_def n_def)
      then have "saturatedAdd v addend upperlimit lowerlimit = Inr r"
        unfolding saturatedAdd_def Finite d_of_word_exact [OF b]
        using neg not_pos False
        by (simp add: d_greater_zero d_less_zero d_greater_integer d_sub_def diff_lo s_def n_def)
      moreover have "lowerlimit \<le> r" "r \<le> upperlimit"
        using r(2,3) VU by (simp_all add: word_le_def)
      ultimately show ?thesis by simp
    qed
  qed
next
  case PlusInf
  then have "saturatedAdd v addend upperlimit lowerlimit = Inr upperlimit"
    by (simp add: saturatedAdd_def d_of_word_exact [OF b] d_greater_def d_zero_def)
  with lv vu show ?thesis by simp
next
  case MinusInf
  then have "saturatedAdd v addend upperlimit lowerlimit = Inr lowerlimit"
    by (simp add: saturatedAdd_def d_of_word_exact [OF b] d_greater_def d_zero_def)
  with lv vu show ?thesis by simp
next
  case NaN
  with nz show ?thesis by (simp add: d_greater_def d_zero_def)
qed

subsection \<open>Where the saturation fails\<close>

text \<open>
  C2, at \<open>T = uint64_t\<close>, \<open>*result = 0\<close> and \<open>value = 2 ^ 64\<close>. The value is
  positive and exceeds \<open>max(T) - *result = 2 ^ 64 - 1\<close>, so the stored value should
  become the maximum and the call return 1. The comparison of the code converts
  \<open>2 ^ 64 - 1\<close> to \<^verbatim>\<open>double\<close>, which rounds it to \<open>2 ^ 64\<close>, and is false; the
  call goes on to \<^verbatim>\<open>*result += value\<close>, whose sum \<open>2 ^ 64\<close> no \<^verbatim>\<open>uint64_t\<close>
  holds. A NaN passes both tests of any \<open>T\<close> in the same way. The rounding also
  shows without any overflow: adding 1 to the stored value \<open>2 ^ 53 + 1\<close> returns 0
  and stores \<open>2 ^ 53\<close>, not \<open>2 ^ 53 + 2\<close>.
\<close>

theorem saturatingAddition_misses_overflow:
  "d_greater (Finite 1 64) d_zero \<and>
   d_greater (Finite 1 64) (Finite (uint (- 1 - 0 :: uint64)) 0) \<and>
   \<not> d_greater (Finite 1 64) (d_of_word (- 1 - 0 :: uint64)) \<and>
   saturatingAddition (Finite 1 64) (0 :: uint64) = Inl ConversionUndefined \<and>
   saturatingAddition NaN (7 :: uint32) = Inl ConversionUndefined \<and>
   saturatingAddition (Finite 1 0) (2 ^ 53 + 1 :: uint64) = Inr (0, 2 ^ 53)"
  by code_simp

text \<open>A zero addend takes neither branch of \<open>saturatedAdd\<close>, whatever the type.\<close>

lemma saturatedAdd_zero_no_return:
  "saturatedAdd v (Finite 0 e) upperlimit lowerlimit = Inl NoReturn"
  by (simp add: saturatedAdd_def d_greater_def d_zero_def)

text \<open>
  C7, at \<open>T = uint64_t\<close>, \<open>value = 2 ^ 60 + 190\<close>, \<open>addend = 10\<close>,
  \<open>upperlimit = 2 ^ 60 + 200\<close> and \<open>lowerlimit = 0\<close>. The addend is not zero and the
  value lies between the limits, yet the call returns \<open>2 ^ 60 + 256\<close>, above the upper
  limit: the addend does not exceed \<open>upperlimit - value = 10\<close>, and in
  \<^verbatim>\<open>value + addend\<close> the value is converted to \<^verbatim>\<open>double\<close>, which rounds it to
  \<open>2 ^ 60 + 256\<close>. A NaN addend, which is not equal to zero either, reaches the end of
  the function as a zero does.
\<close>

theorem saturatedAdd_exceeds_upperlimit:
  "(0 :: uint64) \<le> 2 ^ 60 + 190 \<and> (2 ^ 60 + 190 :: uint64) \<le> 2 ^ 60 + 200 \<and>
   saturatedAdd (2 ^ 60 + 190 :: uint64) (Finite 10 0) (2 ^ 60 + 200) 0 = Inr (2 ^ 60 + 256) \<and>
   (2 ^ 60 + 200 :: uint64) < 2 ^ 60 + 256 \<and>
   saturatedAdd (5 :: uint32) NaN 10 0 = Inl NoReturn \<and>
   saturatedAdd (5 :: uint32) (Finite 0 0) 10 0 = Inl NoReturn"
  by code_simp

section \<open>Properties of the event log\<close>

lemma recordMalloc_blocks:
  "heap_blocks (recordMalloc a sz hid h) =
     heap_blocks h @ [\<lparr>start_address = a, block_size = sz, heap_id = hid,
                       allocation_tick = current_tick h, free_tick = None\<rparr>]"
  by (simp add: recordMalloc_def recordMallocConflict_def Let_def split: option.split)

lemma recordMalloc_live:
  "live_blocks (recordMalloc a sz hid h) = (live_blocks h)((a, hid) \<mapsto> length (heap_blocks h))"
  by (simp add: recordMalloc_def recordMallocConflict_def Let_def split: option.split)

lemma recordMalloc_tick:
  "current_tick (recordMalloc a sz hid h) = current_tick h + 1"
  by (simp add: recordMalloc_def recordMallocConflict_def Let_def split: option.split)

lemma recordMalloc_conflicts:
  "conflicts (recordMalloc a sz hid h) =
     conflicts h @ (case live_blocks h (a, hid) of
                      None \<Rightarrow> []
                    | Some stale \<Rightarrow> [\<lparr>tick = current_tick h, address = a, allocation_or_free = True\<rparr>])"
  by (simp add: recordMalloc_def recordMallocConflict_def Let_def split: option.split)

lemma recordFree_blocks_length:
  "length (heap_blocks (recordFree a hid h)) = length (heap_blocks h)"
  by (simp add: recordFree_def recordFreeConflict_def split: option.split)

lemma recordFree_live:
  "live_blocks (recordFree a hid h) = (live_blocks h)((a, hid) := None)"
  by (auto simp: recordFree_def recordFreeConflict_def split: option.split)

lemma ran_remove_subset: "ran (m(k := None)) \<subseteq> ran m"
  by (auto simp: ran_def split: if_splits)

lemma ran_update_subset: "ran (m(k \<mapsto> v)) \<subseteq> insert v (ran m)"
  by (auto simp: ran_def split: if_splits)

lemma live_in_log_recordMalloc:
  "live_in_log h \<Longrightarrow> live_in_log (recordMalloc a sz hid h)"
  unfolding live_in_log_def recordMalloc_blocks recordMalloc_live
  using ran_update_subset [of "live_blocks h" "(a, hid)" "length (heap_blocks h)"]
  by (auto simp: less_Suc_eq)

lemma live_in_log_recordFree:
  "live_in_log h \<Longrightarrow> live_in_log (recordFree a hid h)"
  unfolding live_in_log_def recordFree_blocks_length recordFree_live
  using ran_remove_subset [of "live_blocks h" "(a, hid)"]
  by auto

lemma orphaned_recordMalloc:
  "orphaned i b h \<Longrightarrow> orphaned i b (recordMalloc a sz hid h)"
  unfolding orphaned_def recordMalloc_blocks recordMalloc_live
  using ran_update_subset [of "live_blocks h" "(a, hid)" "length (heap_blocks h)"]
  by (auto simp: nth_append)

lemma orphaned_recordFree:
  assumes "orphaned i b h"
  shows "orphaned i b (recordFree a hid h)"
proof (cases "live_blocks h (a, hid)")
  case None
  with assms show ?thesis
    by (simp add: orphaned_def recordFree_def recordFreeConflict_def)
next
  case (Some j)
  then have "j \<in> ran (live_blocks h)" by (auto simp: ran_def)
  with assms have "j \<noteq> i" by (auto simp: orphaned_def)
  moreover have "ran ((live_blocks h)((a, hid) := None)) \<subseteq> ran (live_blocks h)"
    by (rule ran_remove_subset)
  ultimately show ?thesis
    using assms Some by (auto simp: orphaned_def recordFree_def)
qed

lemma orphaned_record_event: "orphaned i b h \<Longrightarrow> orphaned i b (record_event e h)"
  by (cases e) (simp_all add: orphaned_recordMalloc orphaned_recordFree recordRealloc_def)

lemma orphaned_record_events: "orphaned i b h \<Longrightarrow> orphaned i b (record_events es h)"
  by (induction es arbitrary: h) (simp_all add: orphaned_record_event)

lemma live_in_log_record_event: "live_in_log h \<Longrightarrow> live_in_log (record_event e h)"
  by (cases e) (simp_all add: live_in_log_recordMalloc live_in_log_recordFree recordRealloc_def)

lemma live_in_log_record_events: "live_in_log h \<Longrightarrow> live_in_log (record_events es h)"
  by (induction es arbitrary: h) (simp_all add: live_in_log_record_event)

lemma live_in_log_from_empty: "live_in_log (record_events es (empty_history w))"
  by (rule live_in_log_record_events) (simp add: live_in_log_def empty_history_def)

lemma held_byD:
  assumes "held_by k i b h"
  shows "i < length (heap_blocks h)" and "heap_blocks h ! i = b"
    and "live_blocks h k = Some i" and "live_blocks h k2 = Some i \<Longrightarrow> k2 = k"
  using assms unfolding held_by_def by blast+

lemma held_byI:
  assumes "i < length (heap_blocks h)" and "heap_blocks h ! i = b"
    and "live_blocks h k = Some i" and "\<And>k2. live_blocks h k2 = Some i \<Longrightarrow> k2 = k"
  shows "held_by k i b h"
  using assms unfolding held_by_def by blast

lemma held_by_recordMalloc:
  assumes "held_by k i b h" and "(a, hid) \<noteq> k"
  shows "held_by k i b (recordMalloc a sz hid h)"
proof (rule held_byI)
  note d = held_byD [OF assms(1)]
  show "i < length (heap_blocks (recordMalloc a sz hid h))"
    using d(1) by (simp add: recordMalloc_blocks)
  show "heap_blocks (recordMalloc a sz hid h) ! i = b"
    using d(1,2) by (simp add: recordMalloc_blocks nth_append)
  show "live_blocks (recordMalloc a sz hid h) k = Some i"
    using d(3) assms(2) by (simp add: recordMalloc_live)
  show "k2 = k" if "live_blocks (recordMalloc a sz hid h) k2 = Some i" for k2
  proof (cases "k2 = (a, hid)")
    case True
    with that d(1) show ?thesis by (simp add: recordMalloc_live)
  next
    case False
    with that have "live_blocks h k2 = Some i" by (simp add: recordMalloc_live)
    then show ?thesis by (rule d(4))
  qed
qed

lemma held_by_recordFree:
  assumes "held_by k i b h" and "(a, hid) \<noteq> k"
  shows "held_by k i b (recordFree a hid h)"
proof (cases "live_blocks h (a, hid)")
  case None
  then have "recordFree a hid h = recordFreeConflict a hid h"
    by (simp add: recordFree_def)
  with assms(1) show ?thesis
    by (simp add: held_by_def recordFreeConflict_def)
next
  case (Some j)
  note d = held_byD [OF assms(1)]
  have ji: "j \<noteq> i"
    using d(4) [of "(a, hid)"] Some assms(2) by auto
  have blocks: "heap_blocks (recordFree a hid h) =
      (heap_blocks h)[j := (heap_blocks h ! j)\<lparr>free_tick := Some (current_tick h)\<rparr>]"
    using Some by (simp add: recordFree_def)
  show ?thesis
  proof (rule held_byI)
    show "i < length (heap_blocks (recordFree a hid h))"
      using d(1) by (simp add: blocks)
    show "heap_blocks (recordFree a hid h) ! i = b"
      using d(2) ji by (simp add: blocks)
    show "live_blocks (recordFree a hid h) k = Some i"
      using d(3) assms(2) by (simp add: recordFree_live)
    show "k2 = k" if "live_blocks (recordFree a hid h) k2 = Some i" for k2
    proof -
      from that have "live_blocks h k2 = Some i"
        by (cases "k2 = (a, hid)") (simp_all add: recordFree_live)
      then show ?thesis by (rule d(4))
    qed
  qed
qed

lemma held_by_record_event:
  assumes "held_by k i b h" and "k \<notin> set (event_keys e)"
  shows "held_by k i b (record_event e h)"
proof (cases e)
  case (Malloc a sz hid)
  with assms show ?thesis by (simp add: held_by_recordMalloc)
next
  case (Free a hid)
  with assms show ?thesis by (simp add: held_by_recordFree)
next
  case (Realloc old_address new_address sz hid)
  with assms have "(old_address, hid) \<noteq> k" "(new_address, hid) \<noteq> k" by auto
  with assms(1) Realloc show ?thesis
    by (simp add: recordRealloc_def held_by_recordMalloc held_by_recordFree)
qed

lemma held_by_record_events:
  "held_by k i b h \<Longrightarrow> \<forall>e\<in>set es. k \<notin> set (event_keys e) \<Longrightarrow>
   held_by k i b (record_events es h)"
  by (induction es arbitrary: h) (simp_all add: held_by_record_event)

lemma held_by_after_first_malloc:
  assumes "live_in_log h"
  shows "held_by (a, hid) (length (heap_blocks h))
           \<lparr>start_address = a, block_size = sz, heap_id = hid,
              allocation_tick = current_tick h, free_tick = None\<rparr>
           (recordMalloc a sz hid h)"
proof (rule held_byI)
  show "length (heap_blocks h) < length (heap_blocks (recordMalloc a sz hid h))"
    by (simp add: recordMalloc_blocks)
  show "heap_blocks (recordMalloc a sz hid h) ! length (heap_blocks h) =
      \<lparr>start_address = a, block_size = sz, heap_id = hid,
         allocation_tick = current_tick h, free_tick = None\<rparr>"
    by (simp add: recordMalloc_blocks)
  show "live_blocks (recordMalloc a sz hid h) (a, hid) = Some (length (heap_blocks h))"
    by (simp add: recordMalloc_live)
  show "k2 = (a, hid)"
    if "live_blocks (recordMalloc a sz hid h) k2 = Some (length (heap_blocks h))" for k2
  proof (rule ccontr)
    assume "k2 \<noteq> (a, hid)"
    with that have "live_blocks h k2 = Some (length (heap_blocks h))"
      by (simp add: recordMalloc_live)
    then have "length (heap_blocks h) \<in> ran (live_blocks h)" by (rule ranI)
    with assms show False by (auto simp: live_in_log_def)
  qed
qed

lemma orphaned_after_malloc_of_holder:
  assumes "held_by (a, hid) i b h"
  shows "orphaned i b (recordMalloc a sz hid h)"
proof -
  note d = held_byD [OF assms]
  have "i \<notin> ran (live_blocks (recordMalloc a sz hid h))"
  proof
    assume "i \<in> ran (live_blocks (recordMalloc a sz hid h))"
    then obtain k where k: "live_blocks (recordMalloc a sz hid h) k = Some i"
      unfolding ran_def by blast
    show False
    proof (cases "k = (a, hid)")
      case True
      with k d(1) show False by (simp add: recordMalloc_live)
    next
      case False
      with k have "live_blocks h k = Some i" by (simp add: recordMalloc_live)
      from d(4) [OF this] False show False by simp
    qed
  qed
  then show ?thesis
    unfolding orphaned_def using d(1,2) by (simp add: recordMalloc_blocks nth_append)
qed

lemma live_blocks_record_event_other:
  "k \<notin> set (event_keys e) \<Longrightarrow> live_blocks (record_event e h) k = live_blocks h k"
  by (cases e) (auto simp: recordMalloc_live recordFree_live recordRealloc_def)

lemma live_blocks_record_events_other:
  "\<forall>e\<in>set es. k \<notin> set (event_keys e) \<Longrightarrow>
   live_blocks (record_events es h) k = live_blocks h k"
  by (induction es arbitrary: h) (simp_all add: live_blocks_record_event_other)

text \<open>
  C3, as amended. Take two calls of \<open>recordMalloc\<close> for one address and heap, with any
  events recorded between them of which none is about that key. Each call appends a block
  without a free tick to the log. The second call appends exactly one conflict of kind
  alloc at the address; the first call appends one as well exactly when the key was live
  before it. After the second call the live index of the key is the position of the second
  block. When the live index of the starting state names only blocks of the log, the first
  block stays in the log as it is, without a free tick, through the events in between and
  whatever events are recorded afterwards.
\<close>

theorem recordMalloc_twice:
  assumes "\<forall>e\<in>set es. (a, hid) \<notin> set (event_keys e)"
  shows "heap_blocks (recordMalloc a sz1 hid h) =
           heap_blocks h @
             [\<lparr>start_address = a, block_size = sz1, heap_id = hid,
                allocation_tick = current_tick h, free_tick = None\<rparr>] \<and>
         conflicts (recordMalloc a sz1 hid h) =
           conflicts h @
             (case live_blocks h (a, hid) of
                None \<Rightarrow> []
              | Some stale \<Rightarrow>
                  [\<lparr>tick = current_tick h, address = a, allocation_or_free = True\<rparr>]) \<and>
         heap_blocks (recordMalloc a sz2 hid (record_events es (recordMalloc a sz1 hid h))) =
           heap_blocks (record_events es (recordMalloc a sz1 hid h)) @
             [\<lparr>start_address = a, block_size = sz2, heap_id = hid,
                allocation_tick = current_tick (record_events es (recordMalloc a sz1 hid h)),
                free_tick = None\<rparr>] \<and>
         conflicts (recordMalloc a sz2 hid (record_events es (recordMalloc a sz1 hid h))) =
           conflicts (record_events es (recordMalloc a sz1 hid h)) @
             [\<lparr>tick = current_tick (record_events es (recordMalloc a sz1 hid h)),
                address = a, allocation_or_free = True\<rparr>] \<and>
         live_blocks (recordMalloc a sz2 hid (record_events es (recordMalloc a sz1 hid h)))
             (a, hid) =
           Some (length (heap_blocks (record_events es (recordMalloc a sz1 hid h)))) \<and>
         (live_in_log h \<longrightarrow>
            length (heap_blocks h)
              < length (heap_blocks (record_events es (recordMalloc a sz1 hid h))) \<and>
            (\<forall>later.
               heap_blocks (record_events later
                   (recordMalloc a sz2 hid (record_events es (recordMalloc a sz1 hid h))))
                 ! length (heap_blocks h) =
               \<lparr>start_address = a, block_size = sz1, heap_id = hid,
                  allocation_tick = current_tick h, free_tick = None\<rparr>))"
proof -
  define h1 where "h1 = recordMalloc a sz1 hid h"
  define h2 where "h2 = record_events es h1"
  define b1 where "b1 = \<lparr>start_address = a, block_size = sz1, heap_id = hid,
      allocation_tick = current_tick h, free_tick = None\<rparr>"
  have "live_blocks h2 (a, hid) = live_blocks h1 (a, hid)"
    unfolding h2_def using assms by (rule live_blocks_record_events_other)
  then have live2: "live_blocks h2 (a, hid) = Some (length (heap_blocks h))"
    by (simp add: h1_def recordMalloc_live)
  have confl: "conflicts (recordMalloc a sz2 hid h2) =
      conflicts h2 @ [\<lparr>tick = current_tick h2, address = a, allocation_or_free = True\<rparr>]"
    by (simp add: recordMalloc_conflicts live2)
  have stays: "length (heap_blocks h) < length (heap_blocks h2) \<and>
      (\<forall>later. heap_blocks (record_events later (recordMalloc a sz2 hid h2))
          ! length (heap_blocks h) = b1)"
    if wf: "live_in_log h"
  proof -
    have "held_by (a, hid) (length (heap_blocks h)) b1 h1"
      unfolding h1_def b1_def using wf by (rule held_by_after_first_malloc)
    then have held: "held_by (a, hid) (length (heap_blocks h)) b1 h2"
      unfolding h2_def using assms by (rule held_by_record_events)
    then have "orphaned (length (heap_blocks h)) b1 (recordMalloc a sz2 hid h2)"
      by (rule orphaned_after_malloc_of_holder)
    then have "orphaned (length (heap_blocks h)) b1
        (record_events later (recordMalloc a sz2 hid h2))" for later
      by (rule orphaned_record_events)
    then have "\<forall>later. heap_blocks (record_events later (recordMalloc a sz2 hid h2))
          ! length (heap_blocks h) = b1"
      by (simp add: orphaned_def)
    with held_byD(1) [OF held] show ?thesis by simp
  qed
  show ?thesis
    using confl stays
    unfolding h2_def h1_def b1_def
    by (simp add: recordMalloc_blocks recordMalloc_live recordMalloc_conflicts)
qed

theorem recordMalloc_twice_witness:
  "(0x1000, 0) \<notin> set (event_keys (Malloc 0x2000 8 0)) \<and>
   (0x1000, 0) \<notin> set (event_keys (Free 0x2000 0)) \<and>
   live_in_log (empty_history
       \<lparr>minimum_address = 0, maximum_address = 0, minimum_tick = 0, maximum_tick = 0,
        x_shift = Finite 0 0, y_shift = Finite 0 0\<rparr>) \<and>
   heap_blocks (recordMalloc 0x1000 16 0 (record_events [Malloc 0x2000 8 0, Free 0x2000 0]
       (recordMalloc 0x1000 16 0 (empty_history
       \<lparr>minimum_address = 0, maximum_address = 0, minimum_tick = 0, maximum_tick = 0,
        x_shift = Finite 0 0, y_shift = Finite 0 0\<rparr>)))) =
     [\<lparr>start_address = 0x1000, block_size = 16, heap_id = 0, allocation_tick = 0,
        free_tick = None\<rparr>,
      \<lparr>start_address = 0x2000, block_size = 8, heap_id = 0, allocation_tick = 1,
        free_tick = Some 2\<rparr>,
      \<lparr>start_address = 0x1000, block_size = 16, heap_id = 0, allocation_tick = 3,
        free_tick = None\<rparr>] \<and>
   conflicts (recordMalloc 0x1000 16 0 (record_events [Malloc 0x2000 8 0, Free 0x2000 0]
       (recordMalloc 0x1000 16 0 (empty_history
       \<lparr>minimum_address = 0, maximum_address = 0, minimum_tick = 0, maximum_tick = 0,
        x_shift = Finite 0 0, y_shift = Finite 0 0\<rparr>)))) =
     [\<lparr>tick = 3, address = 0x1000, allocation_or_free = True\<rparr>] \<and>
   live_blocks (recordMalloc 0x1000 16 0 (record_events [Malloc 0x2000 8 0, Free 0x2000 0]
       (recordMalloc 0x1000 16 0 (empty_history
       \<lparr>minimum_address = 0, maximum_address = 0, minimum_tick = 0, maximum_tick = 0,
        x_shift = Finite 0 0, y_shift = Finite 0 0\<rparr>)))) (0x1000, 0) = Some 2 \<and>
   heap_blocks (record_events [Free 0x1000 0, Malloc 0x1000 8 0, Free 0x1000 0]
       (recordMalloc 0x1000 16 0 (record_events [Malloc 0x2000 8 0, Free 0x2000 0]
       (recordMalloc 0x1000 16 0 (empty_history
       \<lparr>minimum_address = 0, maximum_address = 0, minimum_tick = 0, maximum_tick = 0,
        x_shift = Finite 0 0, y_shift = Finite 0 0\<rparr>))))) ! 0 =
     \<lparr>start_address = 0x1000, block_size = 16, heap_id = 0, allocation_tick = 0,
        free_tick = None\<rparr>"
proof -
  let ?h = "empty_history
       \<lparr>minimum_address = 0, maximum_address = 0, minimum_tick = 0, maximum_tick = 0,
        x_shift = Finite 0 0, y_shift = Finite 0 0\<rparr>"
  let ?es = "[Malloc 0x2000 8 0, Free 0x2000 0]"
  let ?h2 = "record_events ?es (recordMalloc 0x1000 16 0 ?h)"
  let ?h3 = "recordMalloc 0x1000 16 0 ?h2"
  have nokey: "\<forall>e\<in>set ?es. (0x1000, 0) \<notin> set (event_keys e)"
    by simp
  have wf: "live_in_log ?h"
    by (simp add: live_in_log_def empty_history_def)
  note twice = recordMalloc_twice [OF nokey, where ?sz1.0 = 16 and ?sz2.0 = 16 and h = ?h]
  have h2: "heap_blocks ?h2 =
     [\<lparr>start_address = 0x1000, block_size = 16, heap_id = 0, allocation_tick = 0,
        free_tick = None\<rparr>,
      \<lparr>start_address = 0x2000, block_size = 8, heap_id = 0, allocation_tick = 1,
        free_tick = Some 2\<rparr>]"
    "current_tick ?h2 = 3" "conflicts ?h2 = []"
    by (simp_all add: recordFree_def recordMalloc_blocks recordMalloc_live recordMalloc_tick
        recordMalloc_conflicts empty_history_def)
  have blocks: "heap_blocks ?h3 =
     [\<lparr>start_address = 0x1000, block_size = 16, heap_id = 0, allocation_tick = 0,
        free_tick = None\<rparr>,
      \<lparr>start_address = 0x2000, block_size = 8, heap_id = 0, allocation_tick = 1,
        free_tick = Some 2\<rparr>,
      \<lparr>start_address = 0x1000, block_size = 16, heap_id = 0, allocation_tick = 3,
        free_tick = None\<rparr>]"
    using twice by (simp only: h2) simp
  have confl: "conflicts ?h3 = [\<lparr>tick = 3, address = 0x1000, allocation_or_free = True\<rparr>]"
    using twice by (simp only: h2) simp
  have live: "live_blocks ?h3 (0x1000, 0) = Some 2"
    using twice by (simp only: h2) simp
  from twice wf have "\<forall>later. heap_blocks (record_events later ?h3) ! length (heap_blocks ?h) =
      \<lparr>start_address = 0x1000, block_size = 16, heap_id = 0,
         allocation_tick = current_tick ?h, free_tick = None\<rparr>"
    by blast
  then have "heap_blocks (record_events [Free 0x1000 0, Malloc 0x1000 8 0, Free 0x1000 0] ?h3)
        ! length (heap_blocks ?h) =
      \<lparr>start_address = 0x1000, block_size = 16, heap_id = 0,
         allocation_tick = current_tick ?h, free_tick = None\<rparr>"
    by (rule spec)
  moreover have "length (heap_blocks ?h) = 0" "current_tick ?h = 0"
    by (simp_all add: empty_history_def)
  ultimately have stays:
    "heap_blocks (record_events [Free 0x1000 0, Malloc 0x1000 8 0, Free 0x1000 0] ?h3) ! 0 =
      \<lparr>start_address = 0x1000, block_size = 16, heap_id = 0,
         allocation_tick = 0, free_tick = None\<rparr>"
    by (simp only:)
  have keys: "(0x1000, 0) \<notin> set (event_keys (Malloc 0x2000 8 0))"
      "(0x1000, 0) \<notin> set (event_keys (Free 0x2000 0))"
    using nokey by simp_all
  from keys wf blocks confl live stays show ?thesis
    by (intro conjI)
qed

text \<open>
  The condition on the live index is needed. With an entry of another key that names the
  position the first block is about to take, a free of that other key between the two
  calls gives the first block a free tick.
\<close>

lemma stale_position_closes_first_block:
  "free_tick (heap_blocks (recordMalloc 0x1000 16 0 (record_events [Free 0x2000 0]
       (recordMalloc 0x1000 16 0 ((empty_history
       \<lparr>minimum_address = 0, maximum_address = 0, minimum_tick = 0, maximum_tick = 0,
        x_shift = Finite 0 0, y_shift = Finite 0 0\<rparr>)\<lparr>live_blocks := [(0x2000, 0) \<mapsto> 0]\<rparr>)))) ! 0) = Some 1"
  by (simp add: recordFree_def recordMalloc_blocks recordMalloc_live recordMalloc_tick
      empty_history_def)

text \<open>
  C3 as stated fails in a state where the key is already live: after one
  \<open>recordMalloc\<close> of the address, two more append two conflicts, not one.
\<close>

theorem recordMalloc_twice_counterexample:
  "\<not> (\<exists>c. conflicts (recordMalloc 0x1000 16 0 (recordMalloc 0x1000 16 0
            (recordMalloc 0x1000 16 0 (empty_history
       \<lparr>minimum_address = 0, maximum_address = 0, minimum_tick = 0, maximum_tick = 0,
        x_shift = Finite 0 0, y_shift = Finite 0 0\<rparr>)))) =
          conflicts (recordMalloc 0x1000 16 0 (empty_history
       \<lparr>minimum_address = 0, maximum_address = 0, minimum_tick = 0, maximum_tick = 0,
        x_shift = Finite 0 0, y_shift = Finite 0 0\<rparr>)) @ [c])"
  by (simp add: recordMalloc_conflicts recordMalloc_live recordMalloc_tick empty_history_def)

text \<open>
  C4. In a state whose live index has no entry for the address and heap,
  \<open>recordFree\<close> appends one conflict of kind free at the address, with the current
  tick, and changes nothing else: the blocks, the live index and the counter are as
  before.
\<close>

theorem recordFree_unknown_address:
  assumes "live_blocks h (a, hid) = None"
  shows "recordFree a hid h =
           h\<lparr>conflicts := conflicts h @
                [\<lparr>tick = current_tick h, address = a, allocation_or_free = False\<rparr>]\<rparr> \<and>
         heap_blocks (recordFree a hid h) = heap_blocks h \<and>
         live_blocks (recordFree a hid h) = live_blocks h \<and>
         current_tick (recordFree a hid h) = current_tick h"
  using assms by (simp add: recordFree_def recordFreeConflict_def)

theorem recordFree_unknown_address_witness:
  "live_blocks (empty_history
       \<lparr>minimum_address = 0, maximum_address = 0, minimum_tick = 0, maximum_tick = 0,
        x_shift = Finite 0 0, y_shift = Finite 0 0\<rparr>) (0x2000, 0) = None \<and>
   heap_blocks (recordFree 0x2000 0 (empty_history
       \<lparr>minimum_address = 0, maximum_address = 0, minimum_tick = 0, maximum_tick = 0,
        x_shift = Finite 0 0, y_shift = Finite 0 0\<rparr>)) = [] \<and>
   conflicts (recordFree 0x2000 0 (empty_history
       \<lparr>minimum_address = 0, maximum_address = 0, minimum_tick = 0, maximum_tick = 0,
        x_shift = Finite 0 0, y_shift = Finite 0 0\<rparr>)) =
     [\<lparr>tick = 0, address = 0x2000, allocation_or_free = False\<rparr>]"
  using recordFree_unknown_address [of "empty_history
       \<lparr>minimum_address = 0, maximum_address = 0, minimum_tick = 0, maximum_tick = 0,
        x_shift = Finite 0 0, y_shift = Finite 0 0\<rparr>" "0x2000" 0]
  by (simp add: empty_history_def)

section \<open>Properties of the point queries\<close>

lemma later_block_trans:
  "later_block c b \<Longrightarrow> later_block b d \<Longrightarrow> later_block c d"
  by (auto simp: later_block_def)

lemma later_block_total:
  "\<not> later_block c b \<Longrightarrow> snd c \<noteq> snd b \<Longrightarrow> later_block b c"
  by (auto simp: later_block_def)

lemma later_block_asym:
  "later_block c b \<Longrightarrow> \<not> later_block b c"
  by (auto simp: later_block_def)

lemma best_of_step:
  assumes "best_of bs S a t r"
  shows "best_of bs (insert x S) a t (better_match (bs ! x, x) a t r)"
proof (cases "block_covers (bs ! x) a t")
  case False
  then show ?thesis
    using assms by (auto simp: best_of_def better_match_def split: option.splits)
next
  case covers: True
  show ?thesis
  proof (cases r)
    case None
    then show ?thesis
      using assms covers by (auto simp: best_of_def better_match_def)
  next
    case (Some c)
    show ?thesis
    proof (cases "later_block (bs ! x, x) c")
      case True
      have "j = x \<or> later_block (bs ! x, x) (bs ! j, j)"
        if "j \<in> S" "block_covers (bs ! j) a t" for j
      proof (cases "j = snd c")
        case True
        then show ?thesis
          using assms Some \<open>later_block (bs ! x, x) c\<close>
          by (cases c) (auto simp: best_of_def later_block_def)
      next
        case False
        then have "later_block c (bs ! j, j)"
          using assms Some that by (auto simp: best_of_def)
        then show ?thesis
          using \<open>later_block (bs ! x, x) c\<close> later_block_trans by blast
      qed
      then show ?thesis
        using Some True covers by (auto simp: best_of_def better_match_def)
    next
      case False
      have "x = snd c \<or> later_block c (bs ! x, x)"
        using later_block_total [OF False] by auto
      then show ?thesis
        using assms Some False covers by (auto simp: best_of_def better_match_def)
    qed
  qed
qed

lemma best_of_fold:
  "best_of bs (set js) a t (fold (\<lambda>j. better_match (bs ! j, j) a t) js None)"
proof (induction js rule: rev_induct)
  case Nil
  show ?case by (simp add: best_of_def)
next
  case (snoc x js)
  from best_of_step [OF snoc.IH, of x] show ?case
    by simp
qed

lemma best_of_unique:
  assumes "best_of bs S a t r" and "best_of bs S2 a t r2"
    and "\<And>j. block_covers (bs ! j) a t \<Longrightarrow> j \<in> S \<longleftrightarrow> j \<in> S2"
  shows "r = r2"
proof (cases r)
  case None
  show ?thesis
  proof (cases r2)
    case None
    with \<open>r = None\<close> show ?thesis by simp
  next
    case (Some c2)
    then have "snd c2 \<in> S2" "block_covers (bs ! snd c2) a t"
      using assms(2) by (auto simp: best_of_def)
    then have "snd c2 \<in> S" using assms(3) by blast
    then show ?thesis
      using assms(1) None \<open>block_covers (bs ! snd c2) a t\<close> by (auto simp: best_of_def)
  qed
next
  case (Some c)
  then have c: "snd c \<in> S" "fst c = bs ! snd c" "block_covers (bs ! snd c) a t"
    using assms(1) by (auto simp: best_of_def)
  then have cS2: "snd c \<in> S2" using assms(3) by blast
  show ?thesis
  proof (cases r2)
    case None
    then show ?thesis
      using assms(2) cS2 c(3) by (auto simp: best_of_def)
  next
    case c2def: (Some c2)
    then have c2: "snd c2 \<in> S2" "fst c2 = bs ! snd c2" "block_covers (bs ! snd c2) a t"
      using assms(2) by (auto simp: best_of_def)
    then have c2S: "snd c2 \<in> S" using assms(3) by blast
    have 1: "snd c2 = snd c \<or> later_block c c2"
      using assms(1) Some c2S c2(2,3) by (cases c2) (auto simp: best_of_def)
    have 2: "snd c = snd c2 \<or> later_block c2 c"
      using assms(2) c2def cS2 c(2,3) by (cases c) (auto simp: best_of_def)
    from 1 2 have "snd c = snd c2"
      by (auto dest: later_block_asym)
    with c(2) c2(2) have "c = c2"
      by (simp add: prod_eq_iff)
    with Some c2def show ?thesis by simp
  qed
qed

lemma scan_blocks_fold:
  "scan_blocks xs (length ys) a t found =
     fold (\<lambda>j. better_match ((ys @ xs) ! j, j) a t) [length ys..<length ys + length xs] found"
proof (induction xs arbitrary: ys found)
  case Nil
  show ?case by simp
next
  case (Cons x xs)
  have "scan_blocks (x # xs) (length ys) a t found =
        scan_blocks xs (length (ys @ [x])) a t (better_match (x, length ys) a t found)"
    by simp
  also have "\<dots> = fold (\<lambda>j. better_match (((ys @ [x]) @ xs) ! j, j) a t)
      [length (ys @ [x])..<length (ys @ [x]) + length xs] (better_match (x, length ys) a t found)"
    by (rule Cons.IH)
  also have "\<dots> = fold (\<lambda>j. better_match ((ys @ x # xs) ! j, j) a t)
      (length ys # [length (ys @ [x])..<length (ys @ [x]) + length xs]) found"
    by simp
  also have "length ys # [length (ys @ [x])..<length (ys @ [x]) + length xs] =
      [length ys..<length ys + length (x # xs)]"
    by (simp add: upt_conv_Cons del: upt_Suc)
  finally show ?case .
qed

lemma getBlockAtSlow_fold:
  "getBlockAtSlow h a t =
     fold (\<lambda>j. better_match (heap_blocks h ! j, j) a t) [0..<length (heap_blocks h)] None"
  using scan_blocks_fold [of "heap_blocks h" "[]" a t None]
  by (simp add: getBlockAtSlow_def)

lemma scan_candidates_fold:
  "k \<le> length cache \<Longrightarrow>
   scan_candidates bs cache k a t found =
     fold (\<lambda>j. better_match (bs ! j, j) a t) (rev (take k cache)) found"
proof (induction k arbitrary: found)
  case 0
  show ?case by simp
next
  case (Suc k)
  then have "take (Suc k) cache = take k cache @ [cache ! k]"
    by (simp add: take_Suc_conv_app_nth)
  with Suc show ?case by simp
qed

lemma getBlockAtSlow_best:
  "best_of (heap_blocks h) {0..<length (heap_blocks h)} a t (getBlockAtSlow h a t)"
  using best_of_fold [of "heap_blocks h" "[0..<length (heap_blocks h)]" a t]
  by (simp add: getBlockAtSlow_fold)

lemma upper_bound_correct:
  assumes "sorted (map (\<lambda>i. start_address (bs ! i)) cache)"
    and "lo \<le> hi" and "hi \<le> length cache"
    and "\<forall>k<lo. start_address (bs ! (cache ! k)) \<le> a"
    and "\<forall>k. hi \<le> k \<and> k < length cache \<longrightarrow> a < start_address (bs ! (cache ! k))"
  shows "upper_bound bs cache a lo hi \<le> length cache \<and>
         (\<forall>k<upper_bound bs cache a lo hi. start_address (bs ! (cache ! k)) \<le> a) \<and>
         (\<forall>k. upper_bound bs cache a lo hi \<le> k \<and> k < length cache
              \<longrightarrow> a < start_address (bs ! (cache ! k)))"
  using assms
proof (induction bs cache a lo hi rule: upper_bound.induct)
  case (1 bs cache a lo hi)
  have mono: "start_address (bs ! (cache ! i)) \<le> start_address (bs ! (cache ! j))"
    if "i \<le> j" "j < length cache" for i j
    using "1.prems"(1) that by (auto simp: sorted_iff_nth_mono dest!: spec [of _ i] spec [of _ j])
  show ?case
  proof (cases "lo < hi")
    case False
    then have "upper_bound bs cache a lo hi = lo"
      by (simp add: upper_bound.simps)
    moreover from False "1.prems"(2) have "lo = hi" by simp
    ultimately show ?thesis
      using "1.prems" by simp
  next
    case True
    define mid where "mid = lo + (hi - lo) div 2"
    have mid: "lo \<le> mid" "mid < hi" "mid < length cache"
      using True "1.prems"(3) by (auto simp: mid_def)
    show ?thesis
    proof (cases "start_address (bs ! (cache ! mid)) \<le> a")
      case le: True
      have eq: "upper_bound bs cache a lo hi = upper_bound bs cache a (Suc mid) hi"
        using True le by (subst upper_bound.simps) (simp add: mid_def Let_def)
      have below: "\<forall>k<Suc mid. start_address (bs ! (cache ! k)) \<le> a"
      proof (intro allI impI)
        fix k assume "k < Suc mid"
        then have "start_address (bs ! (cache ! k)) \<le> start_address (bs ! (cache ! mid))"
          using mono [of k mid] mid by simp
        with le show "start_address (bs ! (cache ! k)) \<le> a" by simp
      qed
      have "upper_bound bs cache a (Suc mid) hi \<le> length cache \<and>
         (\<forall>k<upper_bound bs cache a (Suc mid) hi. start_address (bs ! (cache ! k)) \<le> a) \<and>
         (\<forall>k. upper_bound bs cache a (Suc mid) hi \<le> k \<and> k < length cache
              \<longrightarrow> a < start_address (bs ! (cache ! k)))"
        using "1.IH"(1) [OF True mid_def le "1.prems"(1) _ "1.prems"(3) below "1.prems"(5)] mid
        by simp
      with eq show ?thesis by simp
    next
      case gt: False
      have eq: "upper_bound bs cache a lo hi = upper_bound bs cache a lo mid"
        using True gt by (subst upper_bound.simps) (simp add: mid_def Let_def)
      have above: "\<forall>k. mid \<le> k \<and> k < length cache \<longrightarrow> a < start_address (bs ! (cache ! k))"
      proof (intro allI impI)
        fix k assume "mid \<le> k \<and> k < length cache"
        then have "start_address (bs ! (cache ! mid)) \<le> start_address (bs ! (cache ! k))"
          using mono [of mid k] by simp
        with gt show "a < start_address (bs ! (cache ! k))" by simp
      qed
      have "upper_bound bs cache a lo mid \<le> length cache \<and>
         (\<forall>k<upper_bound bs cache a lo mid. start_address (bs ! (cache ! k)) \<le> a) \<and>
         (\<forall>k. upper_bound bs cache a lo mid \<le> k \<and> k < length cache
              \<longrightarrow> a < start_address (bs ! (cache ! k)))"
        using "1.IH"(2) [OF True mid_def gt "1.prems"(1) _ _ "1.prems"(4) above] mid
        by simp
      with eq show ?thesis by simp
    qed
  qed
qed

lemma getBlockAt_best:
  fixes h a t
  defines "bs \<equiv> heap_blocks h"
  defines "cache \<equiv> sort_key (\<lambda>i. start_address (bs ! i)) [0..<length bs]"
  defines "p \<equiv> upper_bound bs cache a 0 (length cache)"
  shows "best_of bs (set (take p cache)) a t (getBlockAt (updateCachedSortedIterators h) a t)"
    and "block_covers (bs ! j) a t \<Longrightarrow> j \<in> set (take p cache) \<longleftrightarrow> j \<in> {0..<length bs}"
proof -
  have srt: "sorted (map (\<lambda>i. start_address (bs ! i)) cache)"
    by (simp add: cache_def)
  have ub: "p \<le> length cache"
      "\<forall>k<p. start_address (bs ! (cache ! k)) \<le> a"
      "\<forall>k. p \<le> k \<and> k < length cache \<longrightarrow> a < start_address (bs ! (cache ! k))"
  proof -
    have lo: "\<forall>k<0. start_address (bs ! (cache ! k)) \<le> a"
      by simp
    have hi: "\<forall>k. length cache \<le> k \<and> k < length cache
        \<longrightarrow> a < start_address (bs ! (cache ! k))"
      by auto
    have "(0::nat) \<le> length cache" "length cache \<le> length cache"
      by simp_all
    from upper_bound_correct [OF srt this lo hi]
    show "p \<le> length cache"
      "\<forall>k<p. start_address (bs ! (cache ! k)) \<le> a"
      "\<forall>k. p \<le> k \<and> k < length cache \<longrightarrow> a < start_address (bs ! (cache ! k))"
      unfolding p_def by blast+
  qed
  have "getBlockAt (updateCachedSortedIterators h) a t = scan_candidates bs cache p a t None"
    by (simp add: getBlockAt_def updateCachedSortedIterators_def Let_def bs_def cache_def p_def)
  also have "\<dots> = fold (\<lambda>j. better_match (bs ! j, j) a t) (rev (take p cache)) None"
    using ub(1) by (rule scan_candidates_fold)
  finally have "getBlockAt (updateCachedSortedIterators h) a t =
      fold (\<lambda>j. better_match (bs ! j, j) a t) (rev (take p cache)) None" .
  then show "best_of bs (set (take p cache)) a t (getBlockAt (updateCachedSortedIterators h) a t)"
    using best_of_fold [of bs "rev (take p cache)" a t] by simp
  have set_cache: "set cache = {0..<length bs}"
    by (simp add: cache_def)
  show "j \<in> set (take p cache) \<longleftrightarrow> j \<in> {0..<length bs}" if cov: "block_covers (bs ! j) a t"
  proof
    assume "j \<in> set (take p cache)"
    then have "j \<in> set cache" by (rule in_set_takeD)
    then show "j \<in> {0..<length bs}" by (simp only: set_cache)
  next
    assume "j \<in> {0..<length bs}"
    then have "j \<in> set cache" by (simp only: set_cache)
    then obtain k where k: "k < length cache" "cache ! k = j"
      by (auto simp: in_set_conv_nth)
    have "start_address (bs ! j) \<le> a"
      using cov by (simp add: block_covers_def)
    then have "k < p"
      using ub(3) k by (auto simp: not_less [symmetric])
    then have "take p cache ! k = j" "k < length (take p cache)"
      using k by simp_all
    then show "j \<in> set (take p cache)"
      by (auto simp: in_set_conv_nth)
  qed
qed

text \<open>
  C1. Once the sorted positions have been rebuilt, the accelerated query returns what the
  linear scan returns, for every history, address and tick: the same answer, the same
  block and the same position. When no block answers the query both return nothing;
  otherwise the block returned answers the query (its range contains the address, it was
  allocated at or before the tick and not freed by then), and no block that answers the
  query was allocated later.
\<close>

theorem getBlockAt_agrees_with_getBlockAtSlow:
  "getBlockAt (updateCachedSortedIterators h) a t = getBlockAtSlow h a t \<and>
   (case getBlockAtSlow h a t of
      None \<Rightarrow> (\<forall>j<length (heap_blocks h). \<not> block_covers (heap_blocks h ! j) a t)
    | Some (b, i) \<Rightarrow>
        i < length (heap_blocks h) \<and> b = heap_blocks h ! i \<and> block_covers b a t \<and>
        (\<forall>j<length (heap_blocks h). block_covers (heap_blocks h ! j) a t \<longrightarrow>
           allocation_tick (heap_blocks h ! j) \<le> allocation_tick b))"
proof
  show "getBlockAt (updateCachedSortedIterators h) a t = getBlockAtSlow h a t"
    using best_of_unique [OF getBlockAt_best(1) getBlockAtSlow_best getBlockAt_best(2)]
    by simp
  have "best_of (heap_blocks h) {0..<length (heap_blocks h)} a t (getBlockAtSlow h a t)"
    by (rule getBlockAtSlow_best)
  then show "case getBlockAtSlow h a t of
      None \<Rightarrow> (\<forall>j<length (heap_blocks h). \<not> block_covers (heap_blocks h ! j) a t)
    | Some (b, i) \<Rightarrow>
        i < length (heap_blocks h) \<and> b = heap_blocks h ! i \<and> block_covers b a t \<and>
        (\<forall>j<length (heap_blocks h). block_covers (heap_blocks h ! j) a t \<longrightarrow>
           allocation_tick (heap_blocks h ! j) \<le> allocation_tick b)"
    by (auto simp: best_of_def later_block_def split: option.splits)
qed

theorem getBlockAt_agrees_with_getBlockAtSlow_witness:
  "getBlockAtSlow (recordMalloc 0x1000 16 0 (recordMalloc 0x1000 16 0 (empty_history
       \<lparr>minimum_address = 0, maximum_address = 0, minimum_tick = 0, maximum_tick = 0,
        x_shift = Finite 0 0, y_shift = Finite 0 0\<rparr>))) 0x1008 1 =
     Some (\<lparr>start_address = 0x1000, block_size = 16, heap_id = 0, allocation_tick = 1,
             free_tick = None\<rparr>, 1) \<and>
   getBlockAt (updateCachedSortedIterators (recordMalloc 0x1000 16 0 (recordMalloc 0x1000 16 0
       (empty_history
       \<lparr>minimum_address = 0, maximum_address = 0, minimum_tick = 0, maximum_tick = 0,
        x_shift = Finite 0 0, y_shift = Finite 0 0\<rparr>)))) 0x1008 1 =
     Some (\<lparr>start_address = 0x1000, block_size = 16, heap_id = 0, allocation_tick = 1,
             free_tick = None\<rparr>, 1) \<and>
   block_covers \<lparr>start_address = 0x1000, block_size = 16, heap_id = 0, allocation_tick = 0,
             free_tick = None\<rparr> 0x1008 1"
proof -
  define h where "h = recordMalloc 0x1000 16 0 (recordMalloc 0x1000 16 0 (empty_history
       \<lparr>minimum_address = 0, maximum_address = 0, minimum_tick = 0, maximum_tick = 0,
        x_shift = Finite 0 0, y_shift = Finite 0 0\<rparr>))"
  have slow: "getBlockAtSlow h 0x1008 1 =
     Some (\<lparr>start_address = 0x1000, block_size = 16, heap_id = 0, allocation_tick = 1,
             free_tick = None\<rparr>, 1)"
    by (simp add: h_def getBlockAtSlow_def recordMalloc_blocks recordMalloc_tick
        empty_history_def better_match_def block_covers_def later_block_def)
  have covers: "block_covers \<lparr>start_address = 0x1000, block_size = 16, heap_id = 0,
      allocation_tick = 0, free_tick = None\<rparr> 0x1008 1"
    by (simp add: block_covers_def)
  from getBlockAt_agrees_with_getBlockAtSlow [of h "0x1008" 1] slow covers
  show ?thesis
    unfolding h_def by simp
qed

end
